theory Spec2Isabelle
  imports Main "HOL-Library.Word"
begin

unbundle bit_operations_syntax

section \<open>The extendible cuckoo hash table of \<^verbatim>\<open>src/tables/xuckoo.c\<close>\<close>

text \<open>
  The table is two extendible hash tables (``inner tables''), each an array of pointers
  to single-key buckets; several slots of one array may point to the same bucket, and the
  code mutates buckets through those pointers. The model therefore keeps an explicit
  store: \<open>heap\<close> is the list of all buckets ever allocated, a pointer is an index into
  it, and \<open>malloc\<close> appends.

  What the C file takes from its headers is a parameter of the model (record \<open>env\<close>):
  the hash functions \<open>h1\<close> and \<open>h2\<close>, the constant \<open>MAX_TABLE_SIZE\<close>, the readings
  of \<open>clock()\<close> (the \<open>n\<close>-th call returns \<open>clock n\<close>), and the indeterminate contents
  of the \<open>key\<close> field of a freshly allocated bucket, which \<open>new_bucket\<close> does not
  initialise.

  The C \<open>int\<close>s of the file (sizes, depths, addresses, ids, counters, the loop counter)
  are never negative and are bounded through \<open>MAX_TABLE_SIZE\<close>; they are natural
  numbers here. A hash value is represented by the natural number with the same bits, so
  that \<open>rightmostnbits\<close>, which only reads low-order bits, computes the same address.
  The accumulated CPU time is an \<open>int\<close>. Failure of \<open>malloc\<close>/\<open>realloc\<close> is not
  modelled.
\<close>

type_synonym int64 = "64 word"

datatype error =
    TableTooLarge        \<comment> \<open>\<open>assert(size < MAX_TABLE_SIZE)\<close> failed: the process aborts\<close>
  | UndefinedBehaviour   \<comment> \<open>out-of-bounds slot, dangling pointer or negative shift\<close>

record env =
  h1 :: "int64 \<Rightarrow> nat"
  h2 :: "int64 \<Rightarrow> nat"
  MAX_TABLE_SIZE :: nat
  clock :: "nat \<Rightarrow> int"
  junk :: "nat \<Rightarrow> int64"

record bucket =
  b_id :: nat        \<comment> \<open>\<open>id\<close>: the first address in the table which points to it\<close>
  b_depth :: nat     \<comment> \<open>\<open>depth\<close>: how many hash value bits are being used\<close>
  b_full :: bool     \<comment> \<open>\<open>full\<close>\<close>
  b_key :: int64     \<comment> \<open>\<open>key\<close>: a field of the struct also while \<open>full\<close> is false\<close>

record stats =
  s_nbuckets :: nat
  s_nkeys :: nat
  s_time :: int

record inner_table =
  t_buckets :: "nat list"   \<comment> \<open>\<open>buckets\<close>: the array of pointers\<close>
  t_size :: nat             \<comment> \<open>\<open>size\<close>\<close>
  t_depth :: nat            \<comment> \<open>\<open>depth\<close>\<close>
  t_nkeys :: nat            \<comment> \<open>\<open>nkeys\<close>\<close>

record xuckoo =
  heap :: "bucket list"
  table1 :: inner_table
  table2 :: inner_table
  stats :: stats
  ticks :: nat              \<comment> \<open>how many times \<open>clock()\<close> has been called\<close>

subsection \<open>Addresses\<close>

text \<open>\<^verbatim>\<open>#define rightmostnbits(n, x) (x) & ((1 << (n)) - 1)\<close>\<close>

definition rightmostnbits :: "nat \<Rightarrow> nat \<Rightarrow> nat" where
  "rightmostnbits n x = x AND (push_bit n 1 - 1)"

subsection \<open>Construction\<close>

text \<open>\<open>new_bucket\<close>: the new pointer is the next index of the store; \<open>key\<close> is not set.\<close>

definition new_bucket :: "env \<Rightarrow> bucket list \<Rightarrow> nat \<Rightarrow> nat \<Rightarrow> bucket list \<times> nat" where
  "new_bucket e hp first_address depth =
     (hp @ [\<lparr>b_id = first_address, b_depth = depth, b_full = False,
             b_key = junk e (length hp)\<rparr>],
      length hp)"

definition new_inner_table :: "env \<Rightarrow> bucket list \<Rightarrow> bucket list \<times> inner_table" where
  "new_inner_table e hp =
     (let (hp', p) = new_bucket e hp 0 0
      in (hp', \<lparr>t_buckets = [p], t_size = 1, t_depth = 0, t_nkeys = 0\<rparr>))"

definition new_xuckoo_hash_table :: "env \<Rightarrow> xuckoo" where
  "new_xuckoo_hash_table e =
     (let (hp1, t1) = new_inner_table e [];
          (hp2, t2) = new_inner_table e hp1
      in \<lparr>heap = hp2, table1 = t1, table2 = t2,
          stats = \<lparr>s_nbuckets = 0, s_nkeys = 0, s_time = 0\<rparr>, ticks = 0\<rparr>)"

subsection \<open>Doubling a table\<close>

text \<open>
  The copy loop of \<open>double_table\<close>: \<open>buckets[size + i] = buckets[i]\<close> for
  \<open>i = 0, ..., size - 1\<close>. A read or a write outside the array is undefined behaviour.
\<close>

function copy_down :: "nat \<Rightarrow> nat \<Rightarrow> nat list \<Rightarrow> error + nat list" where
  "copy_down i sz bs =
     (if i < sz then
        (if i < length bs \<and> sz + i < length bs
         then copy_down (i + 1) sz (bs[sz + i := bs ! i])
         else Inl UndefinedBehaviour)
      else Inr bs)"
  by pat_completeness auto
termination
  by (relation "measure (\<lambda>(i, sz, bs). sz - i)") auto

declare copy_down.simps [simp del]

text \<open>
  \<open>realloc\<close> to \<open>n\<close> pointers keeps the old entries and leaves the new ones
  indeterminate; the model fills them with pointer \<open>0\<close>. Whenever the array has
  \<open>size\<close> entries, the copy loop overwrites every one of them before it is read.
\<close>

definition realloc :: "nat list \<Rightarrow> nat \<Rightarrow> nat list" where
  "realloc bs n = take n bs @ replicate (n - length bs) 0"

definition double_table :: "env \<Rightarrow> inner_table \<Rightarrow> error + inner_table" where
  "double_table e t =
     (let size = t_size t * 2 in
      if \<not> size < MAX_TABLE_SIZE e then Inl TableTooLarge
      else
        (case copy_down 0 (t_size t) (realloc (t_buckets t) size) of
           Inl err \<Rightarrow> Inl err
         | Inr bs \<Rightarrow> Inr (t\<lparr>t_buckets := bs, t_size := size, t_depth := t_depth t + 1\<rparr>)))"

subsection \<open>Splitting a bucket\<close>

definition hash_of :: "env \<Rightarrow> nat \<Rightarrow> int64 \<Rightarrow> nat" where
  "hash_of e table_no key = (if table_no = 1 then h1 e key else h2 e key)"

text \<open>\<open>reinsert_key\<close> writes the key without looking at \<open>full\<close>.\<close>

definition reinsert_key ::
  "env \<Rightarrow> bucket list \<Rightarrow> inner_table \<Rightarrow> int64 \<Rightarrow> nat \<Rightarrow> error + bucket list" where
  "reinsert_key e hp t key table_no =
     (let address = rightmostnbits (t_depth t) (hash_of e table_no key) in
      if address < length (t_buckets t) \<and> t_buckets t ! address < length hp then
        (let p = t_buckets t ! address
         in Inr (hp[p := (hp ! p)\<lparr>b_key := key, b_full := True\<rparr>]))
      else Inl UndefinedBehaviour)"

text \<open>
  The redirection loop of \<open>split_bucket\<close>:
  \<open>for (prefix = 0; prefix < maxprefix; prefix++) buckets[(prefix << new_depth) | suffix] = newbucket\<close>.
\<close>

function redirect :: "nat \<Rightarrow> nat \<Rightarrow> nat \<Rightarrow> nat \<Rightarrow> nat \<Rightarrow> nat list \<Rightarrow> error + nat list" where
  "redirect prefix maxprefix new_depth suffix newbucket bs =
     (if prefix < maxprefix then
        (let a = push_bit new_depth prefix OR suffix in
         if a < length bs
         then redirect (prefix + 1) maxprefix new_depth suffix newbucket (bs[a := newbucket])
         else Inl UndefinedBehaviour)
      else Inr bs)"
  by pat_completeness auto
termination
  by (relation "measure (\<lambda>(prefix, maxprefix, new_depth, suffix, newbucket, bs). maxprefix - prefix)")
    auto

declare redirect.simps [simp del]

definition get_table :: "xuckoo \<Rightarrow> nat \<Rightarrow> inner_table" where
  "get_table s table_no = (if table_no = 1 then table1 s else table2 s)"

definition set_table :: "xuckoo \<Rightarrow> nat \<Rightarrow> inner_table \<Rightarrow> xuckoo" where
  "set_table s table_no t = (if table_no = 1 then s\<lparr>table1 := t\<rparr> else s\<lparr>table2 := t\<rparr>)"

text \<open>\<open>table->buckets[address]\<close> followed through the store.\<close>

definition slot_ok :: "bucket list \<Rightarrow> inner_table \<Rightarrow> nat \<Rightarrow> bool" where
  "slot_ok hp t address \<longleftrightarrow> address < length (t_buckets t) \<and> t_buckets t ! address < length hp"

definition split_bucket :: "env \<Rightarrow> xuckoo \<Rightarrow> nat \<Rightarrow> nat \<Rightarrow> error + xuckoo" where
  "split_bucket e s address table_no =
     (let inner_table = get_table s table_no in
      if \<not> slot_ok (heap s) inner_table address then Inl UndefinedBehaviour
      else
        (case (if b_depth (heap s ! (t_buckets inner_table ! address)) = t_depth inner_table
               then double_table e inner_table else Inr inner_table) of
           Inl err \<Rightarrow> Inl err
         | Inr inner_table \<Rightarrow>
            if \<not> slot_ok (heap s) inner_table address then Inl UndefinedBehaviour
            else
              (let bucket = t_buckets inner_table ! address;
                   depth = b_depth (heap s ! bucket);
                   first_address = b_id (heap s ! bucket);
                   new_depth = depth + 1;
                   hp = (heap s)[bucket := (heap s ! bucket)\<lparr>b_depth := new_depth\<rparr>];
                   new_first_address = push_bit depth 1 OR first_address;
                   (hp, newbucket) = new_bucket e hp new_first_address new_depth;
                   bit_address = rightmostnbits depth first_address;
                   suffix = push_bit depth 1 OR bit_address
               in if t_depth inner_table < new_depth then Inl UndefinedBehaviour
                  else
                    (let maxprefix = push_bit (t_depth inner_table - new_depth) 1 in
                     case redirect 0 maxprefix new_depth suffix newbucket (t_buckets inner_table) of
                       Inl err \<Rightarrow> Inl err
                     | Inr bs \<Rightarrow>
                        (let inner_table = inner_table\<lparr>t_buckets := bs\<rparr>;
                             key = b_key (hp ! bucket);
                             hp = hp[bucket := (hp ! bucket)\<lparr>b_full := False\<rparr>]
                         in case reinsert_key e hp inner_table key table_no of
                              Inl err \<Rightarrow> Inl err
                            | Inr hp \<Rightarrow>
                               Inr ((set_table s table_no inner_table)
                                      \<lparr>heap := hp,
                                       stats := (stats s)\<lparr>s_nbuckets := s_nbuckets (stats s) + 1\<rparr>\<rparr>))))))"

subsection \<open>Lookup\<close>

definition xuckoo_hash_table_lookup :: "env \<Rightarrow> xuckoo \<Rightarrow> int64 \<Rightarrow> error + xuckoo \<times> bool" where
  "xuckoo_hash_table_lookup e s key =
     (let start_time = clock e (ticks s);
          s = s\<lparr>ticks := ticks s + 1\<rparr>;
          address = rightmostnbits (t_depth (table1 s)) (h1 e key);
          address2 = rightmostnbits (t_depth (table2 s)) (h2 e key);
          found = False
      in if \<not> slot_ok (heap s) (table1 s) address then Inl UndefinedBehaviour
         else
           (let found = (if b_full (heap s ! (t_buckets (table1 s) ! address))
                         then b_key (heap s ! (t_buckets (table1 s) ! address)) = key
                         else found)
            in if \<not> slot_ok (heap s) (table2 s) address2 then Inl UndefinedBehaviour
               else
                 (let found = (if b_full (heap s ! (t_buckets (table2 s) ! address2)) \<and> found = False
                               then b_key (heap s ! (t_buckets (table2 s) ! address2)) = key
                               else found);
                      s = s\<lparr>stats := (stats s)\<lparr>s_time := s_time (stats s) + (clock e (ticks s) - start_time)\<rparr>,
                             ticks := ticks s + 1\<rparr>
                  in Inr (s, found))))"

subsection \<open>Insertion\<close>

text \<open>
  \<open>xuckoo_hash_table_insert\<close> calls \<open>try_xuck_insert\<close>, which after a split calls
  \<open>xuckoo_hash_table_insert\<close> again. Nothing in the code bounds this recursion a priori,
  so the two functions are one partial function \<open>run\<close> over the two kinds of call;
  \<open>None\<close> stands for a call that never returns.
\<close>

text \<open>
  The first statement of \<open>try_xuck_insert\<close> after \<open>loop++\<close>:
  \<open>if (loop % 2 == 0) { ... table_no = 2; } else { ... table_no = 1; }\<close>.
\<close>

definition active_table_no :: "nat \<Rightarrow> nat" where
  "active_table_no loop = (if loop mod 2 = 0 then 2 else 1)"

datatype call =
    Insert int64                     \<comment> \<open>\<open>xuckoo_hash_table_insert(table, key)\<close>\<close>
  | Try int64 nat int64 nat nat      \<comment> \<open>\<open>try_xuck_insert(table, key, orig_pos, orig_key, loop, orig_table)\<close>\<close>

text \<open>The end of \<open>xuckoo_hash_table_insert\<close>: the value of \<open>try_xuck_insert\<close> is dropped.\<close>

definition finish_insert :: "env \<Rightarrow> int \<Rightarrow> error + xuckoo \<times> bool \<Rightarrow> (error + xuckoo \<times> bool) option" where
  "finish_insert e start_time r =
     (case r of
        Inl err \<Rightarrow> Some (Inl err)
      | Inr (s, b) \<Rightarrow>
          Some (Inr (s\<lparr>stats := (stats s)\<lparr>s_time := s_time (stats s) + (clock e (ticks s) - start_time)\<rparr>,
                       ticks := ticks s + 1\<rparr>, True)))"

partial_function (option) run :: "env \<Rightarrow> xuckoo \<Rightarrow> call \<Rightarrow> (error + xuckoo \<times> bool) option" where
  [code]: "run e s c =
     (case c of
        Insert key \<Rightarrow>
          (let start_time = clock e (ticks s);
               s = s\<lparr>ticks := ticks s + 1\<rparr>
           in case xuckoo_hash_table_lookup e s key of
                Inl err \<Rightarrow> Some (Inl err)
              | Inr (s, found) \<Rightarrow>
                  if found = True then Some (Inr (s, False))
                  else if t_nkeys (table1 s) \<le> t_nkeys (table2 s) then
                    (let hash = h1 e key;
                         address = rightmostnbits (t_depth (table1 s)) hash
                     in Option.bind (run e s (Try key address key 0 1)) (finish_insert e start_time))
                  else
                    (let hash = h2 e key;
                         address = rightmostnbits (t_depth (table2 s)) hash
                     in Option.bind (run e s (Try key address key 1 2)) (finish_insert e start_time)))
      | Try key orig_pos orig_key loop orig_table \<Rightarrow>
          (let loop = loop + 1;
               table_no = active_table_no loop;
               hash = hash_of e table_no key;
               address = rightmostnbits (t_depth (get_table s table_no)) hash
           in if (address = orig_pos \<and> key = orig_key \<and> loop > 3)
                 \<or> loop > t_size (table1 s) + t_size (table2 s) then
                (case split_bucket e s address table_no of
                   Inl err \<Rightarrow> Some (Inl err)
                 | Inr s \<Rightarrow> run e s (Insert key))
              else if \<not> slot_ok (heap s) (get_table s table_no) address then Some (Inl UndefinedBehaviour)
              else
                (let inner_table = get_table s table_no;
                     p = t_buckets inner_table ! address
                 in if b_full (heap s ! p) = True then
                      (let rehash_key = b_key (heap s ! p);
                           s = s\<lparr>heap := (heap s)[p := (heap s ! p)\<lparr>b_key := key\<rparr>]\<rparr>
                       in run e s (Try rehash_key orig_pos orig_key loop orig_table))
                    else
                      (let s = s\<lparr>heap := (heap s)[p := (heap s ! p)\<lparr>b_key := key, b_full := True\<rparr>]\<rparr>;
                           s = set_table s table_no (inner_table\<lparr>t_nkeys := t_nkeys inner_table + 1\<rparr>);
                           s = s\<lparr>stats := (stats s)\<lparr>s_nkeys := s_nkeys (stats s) + 1\<rparr>\<rparr>
                       in Some (Inr (s, True))))))"

definition xuckoo_hash_table_insert :: "env \<Rightarrow> xuckoo \<Rightarrow> int64 \<Rightarrow> (error + xuckoo \<times> bool) option" where
  "xuckoo_hash_table_insert e s key = run e s (Insert key)"

definition try_xuck_insert ::
  "env \<Rightarrow> xuckoo \<Rightarrow> int64 \<Rightarrow> nat \<Rightarrow> int64 \<Rightarrow> nat \<Rightarrow> nat \<Rightarrow> (error + xuckoo \<times> bool) option" where
  "try_xuck_insert e s key orig_pos orig_key loop orig_table =
     run e s (Try key orig_pos orig_key loop orig_table)"

subsection \<open>Teardown\<close>

text \<open>
  One loop of \<open>free_xuckoo_hash_table\<close>:
  \<open>for (i = size-1; i >= 0; i--) if (buckets[i]->id == i) free(buckets[i]);\<close>
  The argument \<open>Suc i\<close> is the number of slots still to visit, \<open>freed\<close> the pointers
  already given to \<open>free\<close> (latest first). Reading \<open>buckets[i]->id\<close> through a
  pointer that has been freed is undefined behaviour, and so is freeing it again.
\<close>

fun free_slots :: "bucket list \<Rightarrow> nat list \<Rightarrow> nat \<Rightarrow> nat list \<Rightarrow> error + nat list" where
  "free_slots hp bs 0 freed = Inr freed"
| "free_slots hp bs (Suc i) freed =
     (if \<not> (i < length bs \<and> bs ! i < length hp) \<or> bs ! i \<in> set freed then Inl UndefinedBehaviour
      else if b_id (hp ! (bs ! i)) = i then free_slots hp bs i (bs ! i # freed)
      else free_slots hp bs i freed)"

text \<open>The result is the list of the buckets freed, one entry for each call of \<open>free\<close>.\<close>

definition free_xuckoo_hash_table :: "xuckoo \<Rightarrow> error + nat list" where
  "free_xuckoo_hash_table s =
     (case free_slots (heap s) (t_buckets (table1 s)) (t_size (table1 s)) [] of
        Inl err \<Rightarrow> Inl err
      | Inr freed \<Rightarrow> free_slots (heap s) (t_buckets (table2 s)) (t_size (table2 s)) freed)"

subsection \<open>Sequences of public operations\<close>

text \<open>A client inserting the keys of a list one after the other, collecting the results.\<close>

fun inserts :: "env \<Rightarrow> xuckoo \<Rightarrow> int64 list \<Rightarrow> (error + xuckoo \<times> bool list) option" where
  "inserts e s [] = Some (Inr (s, []))"
| "inserts e s (k # ks) =
     (case xuckoo_hash_table_insert e s k of
        None \<Rightarrow> None
      | Some (Inl err) \<Rightarrow> Some (Inl err)
      | Some (Inr (s', b)) \<Rightarrow>
          (case inserts e s' ks of
             None \<Rightarrow> None
           | Some (Inl err) \<Rightarrow> Some (Inl err)
           | Some (Inr (s'', bs)) \<Rightarrow> Some (Inr (s'', b # bs))))"

text \<open>
  The states a client can see: a fresh table, and what an insert or a lookup that returns
  leaves behind. (Printing and the statistics report do not write to the table.)
\<close>

inductive reachable :: "env \<Rightarrow> xuckoo \<Rightarrow> bool" for e :: env where
  fresh: "reachable e (new_xuckoo_hash_table e)"
| insert: "reachable e s \<Longrightarrow> xuckoo_hash_table_insert e s key = Some (Inr (s', b)) \<Longrightarrow> reachable e s'"
| lookup: "reachable e s \<Longrightarrow> xuckoo_hash_table_lookup e s key = Inr (s', b) \<Longrightarrow> reachable e s'"

subsection \<open>Properties of states\<close>

text \<open>A bucket of the table holds the key: it is occupied and stores it.\<close>

definition stores :: "bucket list \<Rightarrow> inner_table \<Rightarrow> nat \<Rightarrow> int64 \<Rightarrow> bool" where
  "stores hp t hash key \<longleftrightarrow>
     (let b = hp ! (t_buckets t ! take_bit (t_depth t) hash) in b_full b \<and> b_key b = key)"

text \<open>
  What the specification says \<open>lookup\<close> returns: the bucket at the low-order
  \<open>global_depth\<close> bits of \<open>h1(key)\<close> in table 1 is occupied and stores the key, or the
  same holds for \<open>h2(key)\<close> in table 2.
\<close>

definition lookup_spec :: "env \<Rightarrow> xuckoo \<Rightarrow> int64 \<Rightarrow> bool" where
  "lookup_spec e s key \<longleftrightarrow>
     stores (heap s) (table1 s) (h1 e key) key \<or> stores (heap s) (table2 s) (h2 e key) key"

text \<open>Everything but the accumulated CPU time (and the clock) is the same in both states.\<close>

definition same_but_time :: "xuckoo \<Rightarrow> xuckoo \<Rightarrow> bool" where
  "same_but_time s s' \<longleftrightarrow>
     heap s' = heap s \<and> table1 s' = table1 s \<and> table2 s' = table2 s \<and>
     s_nkeys (stats s') = s_nkeys (stats s) \<and> s_nbuckets (stats s') = s_nbuckets (stats s)"

text \<open>The slots of a table that point to bucket \<open>p\<close>.\<close>

definition refs :: "inner_table \<Rightarrow> nat \<Rightarrow> nat list" where
  "refs t p = filter (\<lambda>j. t_buckets t ! j = p) [0..<t_size t]"

text \<open>
  The slot-sharing property of the specification for one inner table: every bucket it
  references has local depth at most the global depth, is referenced by exactly
  \<open>2 ^ (global_depth - local_depth)\<close> slots, and the indices of these slots all have the
  low-order \<open>local_depth\<close> bits of the bucket's \<open>id\<close>.
\<close>

definition slot_sharing :: "bucket list \<Rightarrow> inner_table \<Rightarrow> bool" where
  "slot_sharing hp t \<longleftrightarrow>
     (\<forall>i<t_size t.
        let p = t_buckets t ! i; b = hp ! p in
          b_depth b \<le> t_depth t \<and>
          length (refs t p) = 2 ^ (t_depth t - b_depth b) \<and>
          (\<forall>j\<in>set (refs t p). take_bit (b_depth b) j = take_bit (b_depth b) (b_id b)))"

text \<open>The slots at which teardown frees bucket \<open>p\<close>: those whose index is the bucket's \<open>id\<close>.\<close>

definition owner_slots :: "bucket list \<Rightarrow> inner_table \<Rightarrow> nat \<Rightarrow> nat list" where
  "owner_slots hp t p = filter (\<lambda>j. b_id (hp ! p) = j) (refs t p)"

text \<open>The number of occupied buckets an inner table references.\<close>

definition occupied :: "bucket list \<Rightarrow> inner_table \<Rightarrow> nat" where
  "occupied hp t = length (filter (\<lambda>p. b_full (hp ! p)) (remdups (t_buckets t)))"

text \<open>
  The structural invariant of one inner table: the array has \<open>size = 2 ^ depth\<close>
  entries; the bucket of slot \<open>i\<close> is allocated, its depth \<open>d\<close> is at most the table's,
  its \<open>id\<close> is \<open>i mod 2 ^ d\<close>, and every slot with that residue points to it.
\<close>

definition tbl_inv :: "bucket list \<Rightarrow> inner_table \<Rightarrow> bool" where
  "tbl_inv hp t \<longleftrightarrow>
     t_size t = 2 ^ t_depth t \<and> length (t_buckets t) = t_size t \<and>
     (\<forall>i<t_size t.
        t_buckets t ! i < length hp \<and>
        b_depth (hp ! (t_buckets t ! i)) \<le> t_depth t \<and>
        b_id (hp ! (t_buckets t ! i)) = i mod 2 ^ b_depth (hp ! (t_buckets t ! i)) \<and>
        (\<forall>j<t_size t. j mod 2 ^ b_depth (hp ! (t_buckets t ! i)) = b_id (hp ! (t_buckets t ! i))
             \<longrightarrow> t_buckets t ! j = t_buckets t ! i))"

text \<open>
  The invariant of the whole table: both inner tables are well formed, they share no
  bucket, every allocated bucket is referenced, and a table that has grown is below the
  maximum size.
\<close>

definition xuckoo_inv :: "env \<Rightarrow> xuckoo \<Rightarrow> bool" where
  "xuckoo_inv e s \<longleftrightarrow>
     tbl_inv (heap s) (table1 s) \<and> tbl_inv (heap s) (table2 s) \<and>
     set (t_buckets (table1 s)) \<inter> set (t_buckets (table2 s)) = {} \<and>
     set (t_buckets (table1 s)) \<union> set (t_buckets (table2 s)) = {..<length (heap s)} \<and>
     t_size (table1 s) < max 2 (MAX_TABLE_SIZE e) \<and>
     t_size (table2 s) < max 2 (MAX_TABLE_SIZE e)"

text \<open>
  A call returns, and it either aborts on the size assertion or leaves a state that
  satisfies the invariant; in particular it does not run into undefined behaviour.
\<close>

abbreviation returns_well :: "env \<Rightarrow> xuckoo \<Rightarrow> call \<Rightarrow> bool" where
  "returns_well e s c \<equiv>
     \<exists>r. run e s c = Some r \<and>
         (r = Inl TableTooLarge \<or> (\<exists>s' b. r = Inr (s', b) \<and> xuckoo_inv e s'))"

subsection \<open>Concrete environments and states\<close>

text \<open>
  Two hash functions on the key's value, \<open>h1(k) = k\<close> and \<open>h2(k) = k >> 1\<close>, a maximum
  table size of 1024 slots, a clock that advances by one at each reading, and zero-filled
  fresh memory.
\<close>

definition shift_env :: env where
  "shift_env = \<lparr>h1 = (\<lambda>k. unat k), h2 = (\<lambda>k. unat k div 2), MAX_TABLE_SIZE = 1024,
                clock = (\<lambda>n. int n), junk = (\<lambda>_. 0)\<rparr>"

text \<open>The same with a maximum table size of 2 slots.\<close>

definition tiny_env :: env where
  "tiny_env = shift_env\<lparr>MAX_TABLE_SIZE := 2\<rparr>"

text \<open>
  The state after \<open>insert 2\<close>, \<open>insert 4\<close>, \<open>insert 6\<close> on a fresh table under
  \<open>shift_env\<close>: table 1 has two slots and two buckets, table 2 four slots and three
  buckets, one of them shared by slots 1 and 3.
\<close>

definition three_keys_state :: xuckoo where
  "three_keys_state =
     \<lparr>heap = [\<lparr>b_id = 0, b_depth = 1, b_full = True, b_key = 6\<rparr>,
              \<lparr>b_id = 0, b_depth = 2, b_full = False, b_key = 6\<rparr>,
              \<lparr>b_id = 1, b_depth = 1, b_full = False, b_key = 0\<rparr>,
              \<lparr>b_id = 1, b_depth = 1, b_full = True, b_key = 6\<rparr>,
              \<lparr>b_id = 2, b_depth = 2, b_full = True, b_key = 4\<rparr>],
      table1 = \<lparr>t_buckets = [0, 2], t_size = 2, t_depth = 1, t_nkeys = 1\<rparr>,
      table2 = \<lparr>t_buckets = [1, 3, 4, 3], t_size = 4, t_depth = 2, t_nkeys = 2\<rparr>,
      stats = \<lparr>s_nbuckets = 3, s_nkeys = 3, s_time = 48\<rparr>, ticks = 24\<rparr>"

text \<open>
  Two hash functions that send every key to 0, with a maximum table size of 8 slots.
\<close>

definition zero_env :: env where
  "zero_env = \<lparr>h1 = (\<lambda>k. 0), h2 = (\<lambda>k. 0), MAX_TABLE_SIZE = 8, clock = (\<lambda>n. 0), junk = (\<lambda>_. 0)\<rparr>"

text \<open>
  The state in the middle of \<open>insert 6\<close> after \<open>insert 2\<close> and \<open>insert 4\<close> under
  \<open>shift_env\<close>: 6 has displaced 2 from table 1, 2 has displaced 4 from table 2, and
  \<open>try_xuck_insert\<close> is called with key 4, \<open>orig_key\<close> 6 and \<open>loop\<close> 2.
\<close>

definition chain_state :: xuckoo where
  "chain_state =
     \<lparr>heap = [\<lparr>b_id = 0, b_depth = 0, b_full = True, b_key = 6\<rparr>,
              \<lparr>b_id = 0, b_depth = 0, b_full = True, b_key = 2\<rparr>],
      table1 = \<lparr>t_buckets = [0], t_size = 1, t_depth = 0, t_nkeys = 1\<rparr>,
      table2 = \<lparr>t_buckets = [1], t_size = 1, t_depth = 0, t_nkeys = 1\<rparr>,
      stats = \<lparr>s_nbuckets = 0, s_nkeys = 2, s_time = 9\<rparr>, ticks = 11\<rparr>"



section \<open>Addresses and the active table\<close>

lemma rightmostnbits_take_bit: "rightmostnbits n x = take_bit n x"
proof -
  have "push_bit n (1::nat) - 1 = mask n"
    by (simp add: mask_eq_exp_minus_1)
  then show ?thesis
    by (simp add: rightmostnbits_def take_bit_eq_mask)
qed

lemma rightmostnbits_mod: "rightmostnbits n x = x mod 2 ^ n"
  by (simp add: rightmostnbits_take_bit take_bit_eq_mod)

lemma rightmostnbits_less: "rightmostnbits n x < 2 ^ n"
  by (simp add: rightmostnbits_mod)

lemma active_table_no_Suc:
  "active_table_no (Suc loop) = (if active_table_no loop = 1 then 2 else 1)"
  by (auto simp: active_table_no_def mod_Suc)

section \<open>The cycle check of the displacement step\<close>

lemma run_Try_split:
  assumes "(rightmostnbits (t_depth (get_table s (active_table_no (loop + 1))))
              (hash_of e (active_table_no (loop + 1)) key) = orig_pos \<and> key = orig_key \<and> loop + 1 > 3)
           \<or> loop + 1 > t_size (table1 s) + t_size (table2 s)"
  shows "run e s (Try key orig_pos orig_key loop orig_table) =
           (case split_bucket e s (rightmostnbits (t_depth (get_table s (active_table_no (loop + 1))))
                                     (hash_of e (active_table_no (loop + 1)) key))
                   (active_table_no (loop + 1)) of
              Inl err \<Rightarrow> Some (Inl err)
            | Inr s' \<Rightarrow> run e s' (Insert key))"
  using assms by (subst run.simps) (simp add: Let_def)

text \<open>
  Claim C1, as amended. In \<open>try_xuck_insert\<close>, with \<open>loop\<close> already incremented: if
  (a) the computed address equals \<open>orig_pos\<close>, the current key equals \<open>orig_key\<close> and
  the loop count is greater than 3, or (b) the loop count exceeds the sum of the two
  tables' sizes, then the bucket at the computed address of the active table is split, and
  the result is that of the top-level insert called on the \<^emph>\<open>current\<close> key
  (\<open>return xuckoo_hash_table_insert(table, key)\<close>), the key the chain holds in hand; a
  failed split aborts. Under (a) the current key is the origin key; under (b) it need not be.
\<close>

theorem restart_with_current_key:
  assumes "table_no = active_table_no (loop + 1)"
    and "address = rightmostnbits (t_depth (get_table s table_no)) (hash_of e table_no key)"
    and "(address = orig_pos \<and> key = orig_key \<and> loop + 1 > 3)
           \<or> loop + 1 > t_size (table1 s) + t_size (table2 s)"
  shows "try_xuck_insert e s key orig_pos orig_key loop orig_table =
           (case split_bucket e s address table_no of
              Inl err \<Rightarrow> Some (Inl err)
            | Inr s' \<Rightarrow> xuckoo_hash_table_insert e s' key)"
  unfolding try_xuck_insert_def xuckoo_hash_table_insert_def
  using assms run_Try_split [of s loop e key orig_pos orig_key orig_table] by simp

text \<open>
  The theorem at \<open>chain_state\<close>: the loop count becomes 3, which exceeds the two sizes
  1 + 1, the current key is 4 and the origin key is 6.
\<close>

theorem restart_with_current_key_witness:
  "try_xuck_insert shift_env chain_state 4 0 6 2 1 =
     (case split_bucket shift_env chain_state 0 1 of
        Inl err \<Rightarrow> Some (Inl err)
      | Inr s' \<Rightarrow> xuckoo_hash_table_insert shift_env s' 4)"
  by (rule restart_with_current_key [where table_no = 1 and address = 0])
     (simp_all add: active_table_no_def chain_state_def shift_env_def get_table_def
        rightmostnbits_mod hash_of_def)

text \<open>
  Claim C1 as stated fails there: restarting with the origin key 6, which the first step
  of the chain has already stored in table 1, would return at once and drop key 4.
\<close>

theorem restart_with_origin_key_counterexample:
  "try_xuck_insert shift_env chain_state 4 0 6 2 1 \<noteq>
     (case split_bucket shift_env chain_state 0 1 of
        Inl err \<Rightarrow> Some (Inl err)
      | Inr s' \<Rightarrow> xuckoo_hash_table_insert shift_env s' 6)"
  by code_simp

section \<open>Growing a table\<close>

lemma copy_down_append:
  "length xs = n \<Longrightarrow> length ys = n \<Longrightarrow> i \<le> n \<Longrightarrow> take i ys = take i xs
     \<Longrightarrow> copy_down i n (xs @ ys) = Inr (xs @ xs)"
proof (induction "n - i" arbitrary: i ys)
  case 0
  then show ?case by (simp add: copy_down.simps)
next
  case (Suc k)
  then have i: "i < n" by simp
  let ?ys = "ys[i := xs ! i]"
  have upd: "(xs @ ys)[n + i := (xs @ ys) ! i] = xs @ ?ys"
    using Suc.prems i by (simp add: list_update_append nth_append)
  have "take (Suc i) ?ys = take (Suc i) xs"
    using Suc.prems i by (simp add: take_Suc_conv_app_nth)
  with Suc.hyps(1) [of "Suc i" ?ys] Suc.hyps(2) Suc.prems i
  have "copy_down (Suc i) n (xs @ ?ys) = Inr (xs @ xs)" by simp
  with upd i Suc.prems show ?case
    by (subst copy_down.simps) simp
qed

lemma double_table_eq:
  assumes "length (t_buckets t) = t_size t"
  shows "double_table e t =
           (if t_size t * 2 < MAX_TABLE_SIZE e
            then Inr (t\<lparr>t_buckets := t_buckets t @ t_buckets t, t_size := t_size t * 2,
                        t_depth := t_depth t + 1\<rparr>)
            else Inl TableTooLarge)"
proof -
  have "realloc (t_buckets t) (t_size t * 2) = t_buckets t @ replicate (t_size t) 0"
    using assms by (simp add: realloc_def)
  moreover have "copy_down 0 (t_size t) (t_buckets t @ replicate (t_size t) 0)
                   = Inr (t_buckets t @ t_buckets t)"
    using assms by (intro copy_down_append) simp_all
  ultimately show ?thesis
    by (simp add: double_table_def Let_def)
qed

lemma split_bucket_abort:
  assumes "slot_ok (heap s) (get_table s table_no) address"
    and "b_depth (heap s ! (t_buckets (get_table s table_no) ! address)) = t_depth (get_table s table_no)"
    and "double_table e (get_table s table_no) = Inl err"
  shows "split_bucket e s address table_no = Inl err"
  using assms by (simp add: split_bucket_def Let_def)

lemma finish_insert_abort: "finish_insert e start_time (Inl err) = Some (Inl err)"
  by (simp add: finish_insert_def)

lemma run_Insert_abort:
  assumes "xuckoo_hash_table_lookup e (s\<lparr>ticks := ticks s + 1\<rparr>) key = Inr (s1, False)"
    and "\<And>address loop table_no. run e s1 (Try key address key loop table_no) = Some (Inl err)"
  shows "run e s (Insert key) = Some (Inl err)"
  using assms by (subst run.simps) (simp add: Let_def finish_insert_abort)

text \<open>
  Claim C6, as amended. \<open>double_table\<close>, on a table whose array has \<open>size\<close> entries,
  fails exactly when twice the size is not strictly below \<open>MAX_TABLE_SIZE\<close>
  (\<open>assert(size < MAX_TABLE_SIZE)\<close>), that is, also when the doubled size equals the
  maximum. Otherwise the array has twice the length, \<open>size\<close> is doubled, \<open>depth\<close> is
  incremented, every old slot is unchanged and slot \<open>i + old_size\<close> holds what slot
  \<open>i\<close> holds. The failure is an abort: \<open>split_bucket\<close>, the only caller, does not
  return normally either.
\<close>

theorem double_table_grows:
  assumes "length (t_buckets t) = t_size t"
  shows "(double_table e t = Inl TableTooLarge \<longleftrightarrow> MAX_TABLE_SIZE e \<le> t_size t * 2) \<and>
         (t_size t * 2 < MAX_TABLE_SIZE e \<longrightarrow>
            (\<exists>t'. double_table e t = Inr t' \<and>
                  length (t_buckets t') = 2 * length (t_buckets t) \<and>
                  t_size t' = 2 * t_size t \<and> t_depth t' = t_depth t + 1 \<and>
                  t_nkeys t' = t_nkeys t \<and>
                  (\<forall>i<t_size t. t_buckets t' ! i = t_buckets t ! i \<and>
                                 t_buckets t' ! (i + t_size t) = t_buckets t ! i))) \<and>
         (\<forall>s address table_no.
            t = get_table s table_no \<and> slot_ok (heap s) t address \<and>
            b_depth (heap s ! (t_buckets t ! address)) = t_depth t \<and>
            MAX_TABLE_SIZE e \<le> t_size t * 2 \<longrightarrow>
            split_bucket e s address table_no = Inl TableTooLarge)"
proof (intro conjI allI impI)
  show "double_table e t = Inl TableTooLarge \<longleftrightarrow> MAX_TABLE_SIZE e \<le> t_size t * 2"
    using assms by (auto simp: double_table_eq)
next
  assume "t_size t * 2 < MAX_TABLE_SIZE e"
  with assms show "\<exists>t'. double_table e t = Inr t' \<and>
                  length (t_buckets t') = 2 * length (t_buckets t) \<and>
                  t_size t' = 2 * t_size t \<and> t_depth t' = t_depth t + 1 \<and>
                  t_nkeys t' = t_nkeys t \<and>
                  (\<forall>i<t_size t. t_buckets t' ! i = t_buckets t ! i \<and>
                                 t_buckets t' ! (i + t_size t) = t_buckets t ! i)"
    by (simp add: double_table_eq nth_append)
next
  fix s address table_no
  assume a: "t = get_table s table_no \<and> slot_ok (heap s) t address \<and>
            b_depth (heap s ! (t_buckets t ! address)) = t_depth t \<and>
            MAX_TABLE_SIZE e \<le> t_size t * 2"
  then have le: "MAX_TABLE_SIZE e \<le> t_size t * 2"
    and ok: "slot_ok (heap s) t address"
    and d: "b_depth (heap s ! (t_buckets t ! address)) = t_depth t"
    by blast+
  from a have t: "t = get_table s table_no" by (rule conjunct1)
  from le have "double_table e t = Inl TableTooLarge"
    using assms by (simp add: double_table_eq)
  then show "split_bucket e s address table_no = Inl TableTooLarge"
    using ok d unfolding t by (rule split_bucket_abort [rotated 2])
qed

text \<open>
  The theorem on the size-1 table of \<open>chain_state\<close>: with a maximum of 1024 it grows
  to two slots, with a maximum of 2 the split aborts.
\<close>

theorem double_table_grows_witness:
  "(double_table shift_env (table1 chain_state) = Inl TableTooLarge
      \<longleftrightarrow> MAX_TABLE_SIZE shift_env \<le> t_size (table1 chain_state) * 2) \<and>
   (\<exists>t'. double_table shift_env (table1 chain_state) = Inr t' \<and> t_buckets t' = [0, 0] \<and>
         t_size t' = 2 \<and> t_depth t' = 1) \<and>
   split_bucket tiny_env chain_state 0 1 = Inl TableTooLarge"
proof -
  have len: "length (t_buckets (table1 chain_state)) = t_size (table1 chain_state)"
    by (simp add: chain_state_def)
  have lt: "t_size (table1 chain_state) * 2 < MAX_TABLE_SIZE shift_env"
    by (simp add: chain_state_def shift_env_def)
  have tiny: "table1 chain_state = get_table chain_state 1 \<and>
      slot_ok (heap chain_state) (table1 chain_state) 0 \<and>
      b_depth (heap chain_state ! (t_buckets (table1 chain_state) ! 0)) = t_depth (table1 chain_state) \<and>
      MAX_TABLE_SIZE tiny_env \<le> t_size (table1 chain_state) * 2"
    by (simp add: chain_state_def tiny_env_def shift_env_def get_table_def slot_ok_def)
  from double_table_grows [OF len, of shift_env] lt
  obtain t' where t': "double_table shift_env (table1 chain_state) = Inr t'"
    "length (t_buckets t') = 2 * length (t_buckets (table1 chain_state))"
    "t_size t' = 2 * t_size (table1 chain_state)" "t_depth t' = t_depth (table1 chain_state) + 1"
    "\<forall>i<t_size (table1 chain_state). t_buckets t' ! i = t_buckets (table1 chain_state) ! i \<and>
        t_buckets t' ! (i + t_size (table1 chain_state)) = t_buckets (table1 chain_state) ! i"
    by blast
  from t'(2,5) have "t_buckets t' = [0, 0]"
    by (auto simp: chain_state_def length_Suc_conv numeral_2_eq_2)
  with t' have 2: "\<exists>t'. double_table shift_env (table1 chain_state) = Inr t' \<and> t_buckets t' = [0, 0] \<and>
         t_size t' = 2 \<and> t_depth t' = 1"
    by (simp add: chain_state_def)
  have 1: "double_table shift_env (table1 chain_state) = Inl TableTooLarge
      \<longleftrightarrow> MAX_TABLE_SIZE shift_env \<le> t_size (table1 chain_state) * 2"
    using double_table_grows [OF len, of shift_env] by blast
  have 3: "split_bucket tiny_env chain_state 0 1 = Inl TableTooLarge"
    using double_table_grows [OF len, of tiny_env] tiny by blast
  from 1 2 3 show ?thesis by blast
qed

text \<open>
  Claim C6 as stated fails with a maximum of 2 slots: doubling a table of size 1 would
  give size 2, which does not exceed the maximum, and yet the call fails.
\<close>

theorem double_table_exceed_counterexample:
  "double_table tiny_env (table1 chain_state) = Inl TableTooLarge \<and>
   \<not> MAX_TABLE_SIZE tiny_env < t_size (table1 chain_state) * 2"
  by code_simp

section \<open>Lookup\<close>

lemma tbl_invD:
  assumes "tbl_inv hp t"
  shows "t_size t = 2 ^ t_depth t" and "length (t_buckets t) = t_size t"
    and "\<And>i. i < t_size t \<Longrightarrow> t_buckets t ! i < length hp"
    and "\<And>i. i < t_size t \<Longrightarrow> b_depth (hp ! (t_buckets t ! i)) \<le> t_depth t"
    and "\<And>i. i < t_size t \<Longrightarrow>
           b_id (hp ! (t_buckets t ! i)) = i mod 2 ^ b_depth (hp ! (t_buckets t ! i))"
    and "\<And>i j. i < t_size t \<Longrightarrow> j < t_size t \<Longrightarrow>
           j mod 2 ^ b_depth (hp ! (t_buckets t ! i)) = b_id (hp ! (t_buckets t ! i)) \<Longrightarrow>
           t_buckets t ! j = t_buckets t ! i"
  using assms unfolding tbl_inv_def by blast+

lemma tbl_inv_slot_ok:
  assumes "tbl_inv hp t"
  shows "slot_ok hp t (rightmostnbits (t_depth t) h)"
proof -
  let ?a = "rightmostnbits (t_depth t) h"
  have "?a < t_size t"
    unfolding tbl_invD(1) [OF assms] by (rule rightmostnbits_less)
  with tbl_invD(2,3) [OF assms] show ?thesis
    unfolding slot_ok_def by metis
qed

lemma lookup_eq:
  assumes "slot_ok (heap s) (table1 s) (rightmostnbits (t_depth (table1 s)) (h1 e key))"
    and "slot_ok (heap s) (table2 s) (rightmostnbits (t_depth (table2 s)) (h2 e key))"
  shows "xuckoo_hash_table_lookup e s key =
           Inr (s\<lparr>stats := (stats s)\<lparr>s_time := s_time (stats s) + (clock e (ticks s + 1) - clock e (ticks s))\<rparr>,
                  ticks := ticks s + 2\<rparr>,
                lookup_spec e s key)"
  using assms
  by (auto simp: xuckoo_hash_table_lookup_def Let_def lookup_spec_def stores_def
      rightmostnbits_take_bit)

lemma lookup_eq_inv:
  assumes "xuckoo_inv e s"
  shows "xuckoo_hash_table_lookup e s key =
           Inr (s\<lparr>stats := (stats s)\<lparr>s_time := s_time (stats s) + (clock e (ticks s + 1) - clock e (ticks s))\<rparr>,
                  ticks := ticks s + 2\<rparr>,
                lookup_spec e s key)"
  using assms by (intro lookup_eq tbl_inv_slot_ok) (simp_all add: xuckoo_inv_def)

lemma xuckoo_inv_chain_state: "xuckoo_inv shift_env chain_state"
  by (auto simp: xuckoo_inv_def tbl_inv_def chain_state_def shift_env_def)

text \<open>
  Claim C5. In every state that satisfies the table invariant, \<open>lookup\<close> returns, and
  it returns true if and only if the bucket at the low-order \<open>global_depth\<close> bits of
  \<open>h1(key)\<close> in table 1 is occupied and stores the key, or the bucket at the low-order
  \<open>global_depth\<close> bits of \<open>h2(key)\<close> in table 2 is occupied and stores the key. The
  store, both inner tables and the key and bucket counters are the same afterwards; the
  call only adds the elapsed CPU time to \<open>stats.time\<close>, the instrumentation the
  specification keeps apart from the table.
\<close>

theorem lookup_correct:
  assumes "xuckoo_inv e s"
  shows "\<exists>s'. xuckoo_hash_table_lookup e s key = Inr (s', lookup_spec e s key) \<and>
              same_but_time s s'"
  using assms by (simp add: lookup_eq_inv same_but_time_def)

theorem lookup_correct_witness:
  "\<exists>s'. xuckoo_hash_table_lookup shift_env chain_state 6 = Inr (s', True) \<and>
        same_but_time chain_state s'"
proof -
  have "lookup_spec shift_env chain_state 6"
    by (simp add: lookup_spec_def stores_def chain_state_def shift_env_def)
  with lookup_correct [OF xuckoo_inv_chain_state, of 6] show ?thesis by simp
qed

section \<open>Choice of the table\<close>

lemma run_Insert_absent:
  assumes "xuckoo_hash_table_lookup e (s\<lparr>ticks := ticks s + 1\<rparr>) key = Inr (s1, False)"
  shows "run e s (Insert key) =
           Option.bind
             (run e s1 (if t_nkeys (table1 s1) \<le> t_nkeys (table2 s1)
                        then Try key (rightmostnbits (t_depth (table1 s1)) (h1 e key)) key 0 1
                        else Try key (rightmostnbits (t_depth (table2 s1)) (h2 e key)) key 1 2))
             (finish_insert e (clock e (ticks s)))"
  using assms by (subst run.simps) (simp add: Let_def)

lemma run_Insert_present:
  assumes "xuckoo_hash_table_lookup e (s\<lparr>ticks := ticks s + 1\<rparr>) key = Inr (s1, True)"
  shows "run e s (Insert key) = Some (Inr (s1, False))"
  using assms by (subst run.simps) (simp add: Let_def)

lemma run_Try_swap:
  assumes "n = active_table_no (loop + 1)"
    and "a = rightmostnbits (t_depth (get_table s n)) (hash_of e n key)"
    and "\<not> ((a = orig_pos \<and> key = orig_key \<and> loop + 1 > 3)
           \<or> loop + 1 > t_size (table1 s) + t_size (table2 s))"
    and "slot_ok (heap s) (get_table s n) a"
    and "p = t_buckets (get_table s n) ! a"
    and "b_full (heap s ! p)"
  shows "run e s (Try key orig_pos orig_key loop orig_table) =
           run e (s\<lparr>heap := (heap s)[p := (heap s ! p)\<lparr>b_key := key\<rparr>]\<rparr>)
             (Try (b_key (heap s ! p)) orig_pos orig_key (loop + 1) orig_table)"
  using assms by (subst run.simps) (auto simp: Let_def)

lemma run_Try_place:
  assumes "n = active_table_no (loop + 1)"
    and "a = rightmostnbits (t_depth (get_table s n)) (hash_of e n key)"
    and "\<not> ((a = orig_pos \<and> key = orig_key \<and> loop + 1 > 3)
           \<or> loop + 1 > t_size (table1 s) + t_size (table2 s))"
    and "slot_ok (heap s) (get_table s n) a"
    and "p = t_buckets (get_table s n) ! a"
    and "\<not> b_full (heap s ! p)"
  shows "run e s (Try key orig_pos orig_key loop orig_table) =
           Some (Inr ((set_table (s\<lparr>heap := (heap s)[p := (heap s ! p)\<lparr>b_key := key, b_full := True\<rparr>]\<rparr>)
                         n ((get_table s n)\<lparr>t_nkeys := t_nkeys (get_table s n) + 1\<rparr>))
                      \<lparr>stats := (stats s)\<lparr>s_nkeys := s_nkeys (stats s) + 1\<rparr>\<rparr>, True))"
proof -
  have "stats (set_table (s\<lparr>heap := hp\<rparr>) n t) = stats s" for hp t
    by (simp add: set_table_def)
  with assms show ?thesis
    by (subst run.simps) (auto simp: Let_def)
qed


lemma active_table_no_cases: "active_table_no loop = 1 \<or> active_table_no loop = 2"
  by (simp add: active_table_no_def)

lemma active_table_no_alt: "active_table_no (loop + 1 + 1) \<noteq> active_table_no (loop + 1)"
  by (simp add: active_table_no_def mod_Suc)






section \<open>Splitting an empty bucket\<close>

text \<open>
  \<open>split_bucket\<close> takes \<open>bucket->key\<close> and reinserts it without asking whether the
  bucket is \<open>full\<close>. When the cycle check fires at a slot whose bucket is empty, the key
  field still holds what the bucket stored last (or what \<open>malloc\<close> left there), and
  \<open>reinsert_key\<close> writes that stale key over the bucket at its address, occupied or not.
  The three runs below use \<open>shift_env\<close>, that is \<open>h1(k) = k\<close> and \<open>h2(k) = k >> 1\<close>,
  on a fresh table.

  Inserting 2, 4, 6: during the third insert table 2's bucket 0 is split twice. The first
  split moves key 6 to the new bucket at slot 1 and leaves bucket 0 empty with 6 in its key
  field; the chain then swaps key 2 into slot 1 and comes back to slot 0 with the origin key
  and loop count 4; the second split, of the empty bucket, reinserts the stale 6 at slot 3,
  where key 2 is stored.
\<close>

text \<open>
  Claim C3 at that input: the three inserts return true, and the lookup of key 2 that
  follows returns false.
\<close>

theorem inserted_key_not_found:
  "(case inserts shift_env (new_xuckoo_hash_table shift_env) [2, 4, 6] of
      Some (Inr (s, results)) \<Rightarrow>
        results = [True, True, True] \<and>
        (case xuckoo_hash_table_lookup shift_env s 2 of
           Inr (s', found) \<Rightarrow> found = False
         | Inl err \<Rightarrow> False)
    | _ \<Rightarrow> False)"
  by code_simp

text \<open>
  Claim C8 at the input 2, 4, 6, 3, 7: five inserts of pairwise distinct keys return true;
  afterwards the two \<open>nkeys\<close> counters add up to 4, and so do the numbers of occupied
  buckets of the two tables.
\<close>

theorem five_inserts_four_keys:
  "distinct [2, 4, 6, 3, 7 :: int64] \<and>
   (case inserts shift_env (new_xuckoo_hash_table shift_env) [2, 4, 6, 3, 7] of
      Some (Inr (s, results)) \<Rightarrow>
        results = [True, True, True, True, True] \<and>
        t_nkeys (table1 s) + t_nkeys (table2 s) = 4 \<and>
        occupied (heap s) (table1 s) + occupied (heap s) (table2 s) = 4
    | _ \<Rightarrow> False)"
  by code_simp

text \<open>
  Claim C2 at the state after the inserts 2, 4, 6, 3: key 7 is not present and has never
  been inserted, its insert returns true, and the total key count is 4 before and after.
  (The chain ends in a restart on key 6, of which the table holds a second copy, so that
  the nested insert returns through its ``already present'' branch.)
\<close>

theorem insert_true_count_unchanged:
  "(case inserts shift_env (new_xuckoo_hash_table shift_env) [2, 4, 6, 3] of
      Some (Inr (s, results)) \<Rightarrow>
        s_nkeys (stats s) = 4 \<and> \<not> lookup_spec shift_env s 7 \<and>
        (case xuckoo_hash_table_insert shift_env s 7 of
           Some (Inr (s', b)) \<Rightarrow> b = True \<and> s_nkeys (stats s') = 4
         | _ \<Rightarrow> False)
    | _ \<Rightarrow> False)"
  by code_simp

section \<open>Bit arithmetic of the split\<close>

lemma push_bit_or_add:
  fixes s k :: nat
  assumes "s < 2 ^ n"
  shows "push_bit n k OR s = k * 2 ^ n + s"
proof -
  have "push_bit n k AND s = 0"
  proof (rule bit_eqI)
    fix m
    show "bit (push_bit n k AND s) m = bit (0::nat) m"
    proof (cases "m < n")
      case True
      then show ?thesis by (simp add: bit_simps)
    next
      case False
      then have "n \<le> m" by simp
      then have "(2::nat) ^ n \<le> 2 ^ m" by simp
      then have "s < 2 ^ m" by (rule less_le_trans [OF assms])
      then have "\<not> bit s m" by (simp add: bit_iff_odd)
      then show ?thesis by (simp add: bit_simps)
    qed
  qed
  then have "push_bit n k + s = push_bit n k OR s"
    by (rule disjunctive_add_eq_or)
  then show ?thesis by (simp add: push_bit_eq_mult)
qed

lemma one_or_add:
  fixes s :: nat
  assumes "s < 2 ^ n"
  shows "push_bit n 1 OR s = 2 ^ n + s"
  using push_bit_or_add [OF assms, of 1] by simp

lemma residue_iff:
  fixes j :: nat
  assumes "j < 2 ^ D" and "nd \<le> D" and "suffix < 2 ^ nd"
  shows "(\<exists>k<2 ^ (D - nd). j = k * 2 ^ nd + suffix) \<longleftrightarrow> j mod 2 ^ nd = suffix"
proof
  assume "\<exists>k<2 ^ (D - nd). j = k * 2 ^ nd + suffix"
  with assms(3) show "j mod 2 ^ nd = suffix" by auto
next
  assume r: "j mod 2 ^ nd = suffix"
  have "(2::nat) ^ D = 2 ^ nd * 2 ^ (D - nd)"
    using assms(2) by (simp flip: power_add)
  with assms(1) have "j div 2 ^ nd < 2 ^ (D - nd)"
    by (simp add: less_mult_imp_div_less mult.commute)
  moreover have "j = (j div 2 ^ nd) * 2 ^ nd + suffix"
    using r by (metis div_mult_mod_eq)
  ultimately show "\<exists>k<2 ^ (D - nd). j = k * 2 ^ nd + suffix" by blast
qed

lemma redirect_nth:
  assumes "suffix < 2 ^ nd" and "m * 2 ^ nd \<le> length bs" and "p \<le> m"
  shows "\<exists>bs'. redirect p m nd suffix q bs = Inr bs' \<and> length bs' = length bs \<and>
           (\<forall>j<length bs. bs' ! j =
              (if \<exists>k. p \<le> k \<and> k < m \<and> j = k * 2 ^ nd + suffix then q else bs ! j))"
  using assms
proof (induction "m - p" arbitrary: p bs)
  case 0
  then have "p = m" by simp
  then show ?case by (subst redirect.simps) auto
next
  case (Suc n)
  then have pm: "p < m" by simp
  let ?a = "p * 2 ^ nd + suffix"
  let ?bs = "bs[?a := q]"
  have a: "push_bit nd p OR suffix = ?a"
    by (rule push_bit_or_add [OF Suc.prems(1)])
  have "?a < (p + 1) * 2 ^ nd" using Suc.prems(1) by simp
  also have "\<dots> \<le> m * 2 ^ nd" using pm by (intro mult_le_mono1) simp
  finally have alen: "?a < length bs" using Suc.prems(2) by simp
  from Suc.hyps(2) pm have "n = m - (p + 1)" by simp
  from Suc.hyps(1) [OF this Suc.prems(1), of ?bs] Suc.prems(2) pm
  obtain bs' where bs': "redirect (p + 1) m nd suffix q ?bs = Inr bs'" "length bs' = length bs"
    and nth: "\<forall>j<length bs. bs' ! j =
              (if \<exists>k. p + 1 \<le> k \<and> k < m \<and> j = k * 2 ^ nd + suffix then q else ?bs ! j)"
    by auto
  have "redirect p m nd suffix q bs = Inr bs'"
    using pm alen bs'(1) by (subst redirect.simps) (simp add: a Let_def)
  moreover have "bs' ! j = (if \<exists>k. p \<le> k \<and> k < m \<and> j = k * 2 ^ nd + suffix then q else bs ! j)"
    if j: "j < length bs" for j
  proof (cases "j = ?a")
    case True
    then have "\<exists>k. p \<le> k \<and> k < m \<and> j = k * 2 ^ nd + suffix" using pm by blast
    moreover have "bs' ! j = q"
      using nth j True alen by auto
    ultimately show ?thesis by simp
  next
    case False
    have eq: "(\<exists>k. p + 1 \<le> k \<and> k < m \<and> j = k * 2 ^ nd + suffix)
            \<longleftrightarrow> (\<exists>k. p \<le> k \<and> k < m \<and> j = k * 2 ^ nd + suffix)"
    proof
      assume "\<exists>k. p + 1 \<le> k \<and> k < m \<and> j = k * 2 ^ nd + suffix"
      then obtain k where "p + 1 \<le> k" "k < m" "j = k * 2 ^ nd + suffix" by blast
      then have "p \<le> k \<and> k < m \<and> j = k * 2 ^ nd + suffix" by simp
      then show "\<exists>k. p \<le> k \<and> k < m \<and> j = k * 2 ^ nd + suffix" ..
    next
      assume "\<exists>k. p \<le> k \<and> k < m \<and> j = k * 2 ^ nd + suffix"
      then obtain k where k: "p \<le> k" "k < m" "j = k * 2 ^ nd + suffix" by blast
      with False have "k \<noteq> p" by blast
      with k have "p + 1 \<le> k \<and> k < m \<and> j = k * 2 ^ nd + suffix" by simp
      then show "\<exists>k. p + 1 \<le> k \<and> k < m \<and> j = k * 2 ^ nd + suffix" ..
    qed
    have ne: "?a \<noteq> j" using False by simp
    from nth j have "bs' ! j =
        (if \<exists>k. p + 1 \<le> k \<and> k < m \<and> j = k * 2 ^ nd + suffix then q else ?bs ! j)"
      by blast
    then show ?thesis
      by (simp only: eq nth_list_update_neq [OF ne])
  qed
  ultimately show ?case using bs'(2) by blast
qed

lemma redirect_split:
  assumes "length bs = 2 ^ D" and "nd \<le> D" and "suffix < 2 ^ nd"
  shows "\<exists>bs'. redirect 0 (push_bit (D - nd) 1) nd suffix q bs = Inr bs' \<and>
           length bs' = length bs \<and>
           (\<forall>j<length bs. bs' ! j = (if j mod 2 ^ nd = suffix then q else bs ! j))"
proof -
  have m: "push_bit (D - nd) (1::nat) = 2 ^ (D - nd)" by simp
  have "(2::nat) ^ (D - nd) * 2 ^ nd = 2 ^ D"
    using assms(2) by (simp flip: power_add)
  then have le: "2 ^ (D - nd) * 2 ^ nd \<le> length bs" using assms(1) by simp
  from redirect_nth [OF assms(3) le, of 0 q]
  obtain bs' where bs': "redirect 0 (2 ^ (D - nd)) nd suffix q bs = Inr bs'" "length bs' = length bs"
    and nth: "\<forall>j<length bs. bs' ! j =
              (if \<exists>k. 0 \<le> k \<and> k < 2 ^ (D - nd) \<and> j = k * 2 ^ nd + suffix then q else bs ! j)"
    by auto
  have "bs' ! j = (if j mod 2 ^ nd = suffix then q else bs ! j)" if "j < length bs" for j
  proof -
    from that assms(1) have "j < 2 ^ D" by simp
    from residue_iff [OF this assms(2,3)] nth that show ?thesis by simp
  qed
  with bs' show ?thesis unfolding m by blast
qed

section \<open>The structural invariant of an inner table\<close>

lemma tbl_invI:
  assumes "t_size t = 2 ^ t_depth t" and "length (t_buckets t) = t_size t"
    and "\<And>i. i < t_size t \<Longrightarrow> t_buckets t ! i < length hp"
    and "\<And>i. i < t_size t \<Longrightarrow> b_depth (hp ! (t_buckets t ! i)) \<le> t_depth t"
    and "\<And>i. i < t_size t \<Longrightarrow>
           b_id (hp ! (t_buckets t ! i)) = i mod 2 ^ b_depth (hp ! (t_buckets t ! i))"
    and "\<And>i j. i < t_size t \<Longrightarrow> j < t_size t \<Longrightarrow>
           j mod 2 ^ b_depth (hp ! (t_buckets t ! i)) = b_id (hp ! (t_buckets t ! i)) \<Longrightarrow>
           t_buckets t ! j = t_buckets t ! i"
  shows "tbl_inv hp t"
  unfolding tbl_inv_def using assms by blast

lemma tbl_inv_ptr_in_set:
  assumes "tbl_inv hp t" and "i < t_size t"
  shows "t_buckets t ! i \<in> set (t_buckets t)"
  using assms tbl_invD(2) [OF assms(1)] by (metis nth_mem)

lemma tbl_inv_cong:
  assumes inv: "tbl_inv hp t"
    and same: "\<And>p. p \<in> set (t_buckets t) \<Longrightarrow> p < length hp \<Longrightarrow>
                 p < length hp' \<and> b_id (hp' ! p) = b_id (hp ! p) \<and> b_depth (hp' ! p) = b_depth (hp ! p)"
  shows "tbl_inv hp' t"
proof (rule tbl_invI)
  show "t_size t = 2 ^ t_depth t" by (rule tbl_invD(1) [OF inv])
  show "length (t_buckets t) = t_size t" by (rule tbl_invD(2) [OF inv])
next
  fix i assume i: "i < t_size t"
  note s = same [OF tbl_inv_ptr_in_set [OF inv i] tbl_invD(3) [OF inv i]]
  show "t_buckets t ! i < length hp'" using s by blast
  show "b_depth (hp' ! (t_buckets t ! i)) \<le> t_depth t"
    using s tbl_invD(4) [OF inv i] by simp
  show "b_id (hp' ! (t_buckets t ! i)) = i mod 2 ^ b_depth (hp' ! (t_buckets t ! i))"
    using s tbl_invD(5) [OF inv i] by simp
next
  fix i j assume i: "i < t_size t" and j: "j < t_size t"
    and r: "j mod 2 ^ b_depth (hp' ! (t_buckets t ! i)) = b_id (hp' ! (t_buckets t ! i))"
  note s = same [OF tbl_inv_ptr_in_set [OF inv i] tbl_invD(3) [OF inv i]]
  from r s have "j mod 2 ^ b_depth (hp ! (t_buckets t ! i)) = b_id (hp ! (t_buckets t ! i))"
    by simp
  then show "t_buckets t ! j = t_buckets t ! i"
    by (rule tbl_invD(6) [OF inv i j])
qed

lemma tbl_inv_nkeys: "tbl_inv hp (t\<lparr>t_nkeys := k\<rparr>) = tbl_inv hp t"
  by (simp add: tbl_inv_def)

lemma nth_append_self:
  assumes "i < 2 * length bs"
  shows "(bs @ bs) ! i = bs ! (i mod length bs)"
proof (cases "i < length bs")
  case True
  then show ?thesis by (simp add: nth_append)
next
  case False
  with assms have "i mod length bs = i - length bs"
    by (metis le_mod_geq linorder_not_less mod_less mult_2 less_diff_conv2 add.commute)
  with False show ?thesis by (simp add: nth_append)
qed

lemma mod_mod_pow2:
  fixes j :: nat
  assumes "d \<le> D"
  shows "j mod 2 ^ D mod 2 ^ d = j mod 2 ^ d"
  by (rule mod_mod_cancel) (use assms in \<open>simp add: le_imp_power_dvd\<close>)

lemma tbl_inv_double:
  assumes inv: "tbl_inv hp t"
  shows "tbl_inv hp (t\<lparr>t_buckets := t_buckets t @ t_buckets t, t_size := t_size t * 2,
                        t_depth := t_depth t + 1\<rparr>)"
    (is "tbl_inv hp ?t")
proof (rule tbl_invI)
  note sz = tbl_invD(1) [OF inv] and len = tbl_invD(2) [OF inv]
  show "t_size ?t = 2 ^ t_depth ?t" using sz by simp
  show "length (t_buckets ?t) = t_size ?t" using len by simp
  have pos: "0 < t_size t" using sz by simp
  have nth: "t_buckets ?t ! i = t_buckets t ! (i mod t_size t)" if "i < t_size ?t" for i
    using that nth_append_self [of i "t_buckets t"] len by simp
  have lt: "i mod t_size t < t_size t" for i using pos by simp
  {
    fix i assume i: "i < t_size ?t"
    let ?b = "hp ! (t_buckets t ! (i mod t_size t))"
    show "t_buckets ?t ! i < length hp"
      unfolding nth [OF i] by (rule tbl_invD(3) [OF inv lt])
    have dle: "b_depth ?b \<le> t_depth t" by (rule tbl_invD(4) [OF inv lt])
    then show "b_depth (hp ! (t_buckets ?t ! i)) \<le> t_depth ?t"
      unfolding nth [OF i] by simp
    have "b_id ?b = i mod t_size t mod 2 ^ b_depth ?b" by (rule tbl_invD(5) [OF inv lt])
    also have "\<dots> = i mod 2 ^ b_depth ?b" by (rule mod_mod_pow2 [OF dle, folded sz])
    finally show "b_id (hp ! (t_buckets ?t ! i)) = i mod 2 ^ b_depth (hp ! (t_buckets ?t ! i))"
      unfolding nth [OF i] .
  next
    fix i j assume i: "i < t_size ?t" and j: "j < t_size ?t"
      and r: "j mod 2 ^ b_depth (hp ! (t_buckets ?t ! i)) = b_id (hp ! (t_buckets ?t ! i))"
    let ?b = "hp ! (t_buckets t ! (i mod t_size t))"
    have dle: "b_depth ?b \<le> t_depth t" by (rule tbl_invD(4) [OF inv lt])
    from r have "j mod 2 ^ b_depth ?b = b_id ?b" unfolding nth [OF i] .
    moreover have "j mod t_size t mod 2 ^ b_depth ?b = j mod 2 ^ b_depth ?b"
      by (rule mod_mod_pow2 [OF dle, folded sz])
    ultimately have "j mod t_size t mod 2 ^ b_depth ?b = b_id ?b" by simp
    then have "t_buckets t ! (j mod t_size t) = t_buckets t ! (i mod t_size t)"
      by (rule tbl_invD(6) [OF inv lt lt])
    then show "t_buckets ?t ! j = t_buckets ?t ! i"
      unfolding nth [OF i] nth [OF j] .
  }
qed

lemma mod_pow2_Suc_cases:
  fixes j :: nat
  assumes "j mod 2 ^ d = r"
  shows "j mod 2 ^ (d + 1) = r \<or> j mod 2 ^ (d + 1) = 2 ^ d + r"
proof -
  define m where "m = j mod 2 ^ (d + 1)"
  have "(2::nat) ^ (d + 1) = 2 ^ d + 2 ^ d" by simp
  moreover have "m < 2 ^ (d + 1)" unfolding m_def by (rule mod_less_divisor) simp
  ultimately have lt: "m < 2 ^ d + 2 ^ d" by (simp only:)
  have m: "m mod 2 ^ d = r"
    using assms mod_mod_pow2 [of d "d + 1" j] by (simp add: m_def)
  have "m = r \<or> m = 2 ^ d + r"
  proof (cases "m < 2 ^ d")
    case True
    with m show ?thesis by simp
  next
    case False
    then have *: "m = 2 ^ d + (m - 2 ^ d)" and **: "m - 2 ^ d < 2 ^ d" using lt by linarith+
    have "m mod 2 ^ d = (2 ^ d + (m - 2 ^ d)) mod 2 ^ d" using * by simp
    also have "\<dots> = m - 2 ^ d" using ** by simp
    finally show ?thesis using m * by simp
  qed
  then show ?thesis by (simp only: m_def)
qed

lemma mod_pow2_Suc_low:
  fixes j :: nat
  assumes "r < 2 ^ d" and "j mod 2 ^ (d + 1) = r \<or> j mod 2 ^ (d + 1) = 2 ^ d + r"
  shows "j mod 2 ^ d = r"
proof -
  have "j mod 2 ^ d = j mod 2 ^ (d + 1) mod 2 ^ d"
    using mod_mod_pow2 [of d "d + 1" j] by simp
  with assms show ?thesis by auto
qed

lemma tbl_inv_split:
  assumes inv: "tbl_inv hp t" and a: "a < t_size t" and p: "p = t_buckets t ! a"
    and d: "d = b_depth (hp ! p)" and dlt: "d < t_depth t" and fid: "fid = b_id (hp ! p)"
    and len': "length hp' = length hp + 1"
    and hp'_p: "b_depth (hp' ! p) = d + 1" "b_id (hp' ! p) = fid"
    and hp'_q: "b_depth (hp' ! length hp) = d + 1" "b_id (hp' ! length hp) = 2 ^ d + fid"
    and hp'_other: "\<And>p'. p' < length hp \<Longrightarrow> p' \<noteq> p \<Longrightarrow>
          b_depth (hp' ! p') = b_depth (hp ! p') \<and> b_id (hp' ! p') = b_id (hp ! p')"
    and lenbs: "length bs' = length (t_buckets t)"
    and nth: "\<And>j. j < t_size t \<Longrightarrow>
          bs' ! j = (if j mod 2 ^ (d + 1) = 2 ^ d + fid then length hp else t_buckets t ! j)"
  shows "tbl_inv hp' (t\<lparr>t_buckets := bs'\<rparr>)" (is "tbl_inv hp' ?t")
    and "set bs' = insert (length hp) (set (t_buckets t))"
proof -
  note sz = tbl_invD(1) [OF inv] and len = tbl_invD(2) [OF inv]
  let ?q = "length hp"
  let ?bs = "t_buckets t"
  have a_id: "fid = a mod 2 ^ d"
    using tbl_invD(5) [OF inv a] by (simp only: p [symmetric] d [symmetric] fid [symmetric])
  then have fid_lt: "fid < 2 ^ d" by simp
  have ne: "fid \<noteq> 2 ^ d + fid" by simp
  have closure_p: "?bs ! j = p" if "j < t_size t" "j mod 2 ^ d = fid" for j
    using tbl_invD(6) [OF inv a that(1)] that(2)
    by (simp only: p [symmetric] d [symmetric] fid [symmetric])
  have p_res: "j mod 2 ^ d = fid" if "j < t_size t" "?bs ! j = p" for j
    using tbl_invD(5) [OF inv that(1)] by (simp only: that(2) d [symmetric] fid [symmetric])
  have redirected_p: "?bs ! j = p" if "j < t_size t" "j mod 2 ^ (d + 1) = 2 ^ d + fid" for j
    using that mod_pow2_Suc_low [OF fid_lt, of j] closure_p by blast
  have keep: "bs' ! j = ?bs ! j" if "j < t_size t" "?bs ! j \<noteq> p" for j
    using nth [OF that(1)] redirected_p [OF that(1)] that(2) by auto
  have plt: "p < length hp" unfolding p by (rule tbl_invD(3) [OF inv a])

  show "tbl_inv hp' ?t"
  proof (rule tbl_invI)
    show "t_size ?t = 2 ^ t_depth ?t" using sz by simp
    show "length (t_buckets ?t) = t_size ?t" using len lenbs by simp
  next
    fix i assume "i < t_size ?t"
    then have i: "i < t_size t" by simp
    consider (new) "i mod 2 ^ (d + 1) = 2 ^ d + fid"
      | (old) "i mod 2 ^ (d + 1) \<noteq> 2 ^ d + fid" "?bs ! i = p"
      | (other) "?bs ! i \<noteq> p" by blast
    then have "t_buckets ?t ! i < length hp' \<and>
        b_depth (hp' ! (t_buckets ?t ! i)) \<le> t_depth ?t \<and>
        b_id (hp' ! (t_buckets ?t ! i)) = i mod 2 ^ b_depth (hp' ! (t_buckets ?t ! i))"
    proof cases
      case new
      then have "bs' ! i = ?q" using nth [OF i] by simp
      then show ?thesis using new hp'_q len' dlt by simp
    next
      case old
      then have b: "bs' ! i = p" using nth [OF i] by simp
      from mod_pow2_Suc_cases [OF p_res [OF i old(2)]] old(1)
      have "i mod 2 ^ (d + 1) = fid" by blast
      then show ?thesis using b hp'_p plt len' dlt by simp
    next
      case other
      then have b: "bs' ! i = ?bs ! i" by (rule keep [OF i])
      have lt: "?bs ! i < length hp" by (rule tbl_invD(3) [OF inv i])
      from hp'_other [OF lt other] tbl_invD(4) [OF inv i] tbl_invD(5) [OF inv i] lt len'
      show ?thesis by (simp add: b)
    qed
    then show "t_buckets ?t ! i < length hp'"
      and "b_depth (hp' ! (t_buckets ?t ! i)) \<le> t_depth ?t"
      and "b_id (hp' ! (t_buckets ?t ! i)) = i mod 2 ^ b_depth (hp' ! (t_buckets ?t ! i))"
      by blast+
  next
    fix i j assume "i < t_size ?t" "j < t_size ?t"
      and r: "j mod 2 ^ b_depth (hp' ! (t_buckets ?t ! i)) = b_id (hp' ! (t_buckets ?t ! i))"
    then have i: "i < t_size t" and j: "j < t_size t" by simp_all
    consider (new) "i mod 2 ^ (d + 1) = 2 ^ d + fid"
      | (old) "i mod 2 ^ (d + 1) \<noteq> 2 ^ d + fid" "?bs ! i = p"
      | (other) "?bs ! i \<noteq> p" by blast
    then have "bs' ! j = bs' ! i"
    proof cases
      case new
      then have b: "bs' ! i = ?q" using nth [OF i] by simp
      with r hp'_q have "j mod 2 ^ (d + 1) = 2 ^ d + fid" by simp
      then have "bs' ! j = ?q" using nth [OF j] by simp
      with b show ?thesis by simp
    next
      case old
      then have b: "bs' ! i = p" using nth [OF i] by simp
      with r hp'_p have jr: "j mod 2 ^ (d + 1) = fid" by simp
      then have "j mod 2 ^ d = fid" using mod_pow2_Suc_low [OF fid_lt, of j] by blast
      then have "?bs ! j = p" by (rule closure_p [OF j])
      moreover have "bs' ! j = ?bs ! j" using nth [OF j] jr ne by simp
      ultimately show ?thesis using b by simp
    next
      case other
      then have b: "bs' ! i = ?bs ! i" by (rule keep [OF i])
      have lt: "?bs ! i < length hp" by (rule tbl_invD(3) [OF inv i])
      from r hp'_other [OF lt other]
      have "j mod 2 ^ b_depth (hp ! (?bs ! i)) = b_id (hp ! (?bs ! i))" by (simp add: b)
      then have eq: "?bs ! j = ?bs ! i" by (rule tbl_invD(6) [OF inv i j])
      with other have "?bs ! j \<noteq> p" by simp
      then have "bs' ! j = ?bs ! j" by (rule keep [OF j])
      with eq b show ?thesis by simp
    qed
    then show "t_buckets ?t ! j = t_buckets ?t ! i" by simp
  qed

  show "set bs' = insert ?q (set ?bs)"
  proof (intro set_eqI iffI)
    fix x assume "x \<in> set bs'"
    then obtain j where j: "j < length bs'" and x: "x = bs' ! j"
      by (metis in_set_conv_nth)
    from j lenbs len have jt: "j < t_size t" by simp
    from nth [OF jt] x have "x = ?q \<or> x = ?bs ! j" by auto
    moreover have "?bs ! j \<in> set ?bs" using jt len by simp
    ultimately show "x \<in> insert ?q (set ?bs)" by auto
  next
    fix x assume "x \<in> insert ?q (set ?bs)"
    then consider (q) "x = ?q" | (p) "x = p" | (other) "x \<in> set ?bs" "x \<noteq> p" by blast
    then show "x \<in> set bs'"
    proof cases
      case q
      let ?j = "2 ^ d + fid"
      have "(2::nat) ^ (d + 1) \<le> 2 ^ t_depth t" using dlt by (intro power_increasing) simp_all
      moreover have lt: "?j < 2 ^ (d + 1)" using fid_lt by simp
      ultimately have jt: "?j < t_size t" unfolding sz by (rule less_le_trans [rotated])
      have "?j mod 2 ^ (d + 1) = ?j" using lt by (rule mod_less)
      then have "bs' ! ?j = ?q" using nth [OF jt] by simp
      moreover have "?j < length bs'" using jt lenbs len by simp
      ultimately show ?thesis using q by (metis nth_mem)
    next
      case p
      have "(2::nat) ^ d \<le> 2 ^ t_depth t" using dlt by (intro power_increasing) simp_all
      with fid_lt have jt: "fid < t_size t" unfolding sz by (rule less_le_trans)
      have "fid mod 2 ^ d = fid" using fid_lt by (rule mod_less)
      then have "?bs ! fid = p" by (rule closure_p [OF jt])
      moreover have "fid mod 2 ^ (d + 1) = fid" using fid_lt by simp
      then have "bs' ! fid = ?bs ! fid" using nth [OF jt] ne by simp
      moreover have "fid < length bs'" using jt lenbs len by simp
      ultimately show ?thesis using p by (metis nth_mem)
    next
      case other
      then obtain j where j: "j < length ?bs" and x: "x = ?bs ! j"
        by (metis in_set_conv_nth)
      from j len have jt: "j < t_size t" by simp
      from other(2) x have "?bs ! j \<noteq> p" by simp
      then have "bs' ! j = ?bs ! j" by (rule keep [OF jt])
      moreover have "j < length bs'" using j lenbs by simp
      ultimately show ?thesis using x by (metis nth_mem)
    qed
  qed
qed

section \<open>The invariant of the whole table\<close>

lemma tbl_inv_fields:
  assumes "t_buckets t' = t_buckets t" and "t_size t' = t_size t" and "t_depth t' = t_depth t"
  shows "tbl_inv hp t' = tbl_inv hp t"
  unfolding tbl_inv_def by (simp only: assms)

lemma xuckoo_invD:
  assumes "xuckoo_inv e s"
  shows "tbl_inv (heap s) (table1 s)" and "tbl_inv (heap s) (table2 s)"
    and "set (t_buckets (table1 s)) \<inter> set (t_buckets (table2 s)) = {}"
    and "set (t_buckets (table1 s)) \<union> set (t_buckets (table2 s)) = {..<length (heap s)}"
    and "t_size (table1 s) < max 2 (MAX_TABLE_SIZE e)"
    and "t_size (table2 s) < max 2 (MAX_TABLE_SIZE e)"
  using assms unfolding xuckoo_inv_def by blast+

lemma get_table_cases:
  assumes "n = 1 \<or> n = 2"
  obtains "n = 1" "get_table s n = table1 s" "get_table s (3 - n) = table2 s"
    | "n = 2" "get_table s n = table2 s" "get_table s (3 - n) = table1 s"
  using assms by (auto simp: get_table_def)

lemma xuckoo_inv_get:
  assumes "xuckoo_inv e s" and "n = 1 \<or> n = 2"
  shows "tbl_inv (heap s) (get_table s n)"
    and "tbl_inv (heap s) (get_table s (3 - n))"
    and "set (t_buckets (get_table s n)) \<inter> set (t_buckets (get_table s (3 - n))) = {}"
    and "set (t_buckets (get_table s n)) \<union> set (t_buckets (get_table s (3 - n))) = {..<length (heap s)}"
    and "t_size (get_table s n) < max 2 (MAX_TABLE_SIZE e)"
    and "t_size (get_table s (3 - n)) < max 2 (MAX_TABLE_SIZE e)"
proof -
  note D = xuckoo_invD [OF assms(1)]
  have D3': "set (t_buckets (table2 s)) \<inter> set (t_buckets (table1 s)) = {}"
    using D(3) by blast
  have D4': "set (t_buckets (table2 s)) \<union> set (t_buckets (table1 s)) = {..<length (heap s)}"
    using D(4) by (simp only: Un_commute)
  from assms(2) have "tbl_inv (heap s) (get_table s n) \<and>
     tbl_inv (heap s) (get_table s (3 - n)) \<and>
     set (t_buckets (get_table s n)) \<inter> set (t_buckets (get_table s (3 - n))) = {} \<and>
     set (t_buckets (get_table s n)) \<union> set (t_buckets (get_table s (3 - n))) = {..<length (heap s)} \<and>
     t_size (get_table s n) < max 2 (MAX_TABLE_SIZE e) \<and>
     t_size (get_table s (3 - n)) < max 2 (MAX_TABLE_SIZE e)"
  proof (cases rule: get_table_cases [where s = s])
    case 1
    show ?thesis unfolding 1(2,3) using D by blast
  next
    case 2
    show ?thesis unfolding 2(2,3) using D(1,2,5,6) D3' D4' by blast
  qed
  then show "tbl_inv (heap s) (get_table s n)"
    and "tbl_inv (heap s) (get_table s (3 - n))"
    and "set (t_buckets (get_table s n)) \<inter> set (t_buckets (get_table s (3 - n))) = {}"
    and "set (t_buckets (get_table s n)) \<union> set (t_buckets (get_table s (3 - n))) = {..<length (heap s)}"
    and "t_size (get_table s n) < max 2 (MAX_TABLE_SIZE e)"
    and "t_size (get_table s (3 - n)) < max 2 (MAX_TABLE_SIZE e)"
    by blast+
qed

lemma xuckoo_inv_set:
  assumes n: "n = 1 \<or> n = 2"
    and t': "tbl_inv hp' t'" and o: "tbl_inv hp' (get_table s (3 - n))"
    and disj: "set (t_buckets t') \<inter> set (t_buckets (get_table s (3 - n))) = {}"
    and un: "set (t_buckets t') \<union> set (t_buckets (get_table s (3 - n))) = {..<length hp'}"
    and b: "t_size t' < max 2 (MAX_TABLE_SIZE e)"
    and bo: "t_size (get_table s (3 - n)) < max 2 (MAX_TABLE_SIZE e)"
  shows "xuckoo_inv e ((set_table s n t')\<lparr>heap := hp', stats := st\<rparr>)"
  using n
proof (cases rule: get_table_cases [where s = s])
  case 1
  have s': "(set_table s n t')\<lparr>heap := hp', stats := st\<rparr> = s\<lparr>table1 := t', heap := hp', stats := st\<rparr>"
    by (simp add: set_table_def 1(1))
  show ?thesis
    unfolding s' xuckoo_inv_def using t' o disj un b bo unfolding 1(3) by simp
next
  case 2
  have s': "(set_table s n t')\<lparr>heap := hp', stats := st\<rparr> = s\<lparr>table2 := t', heap := hp', stats := st\<rparr>"
    by (simp add: set_table_def 2(1))
  have "set (t_buckets (table1 s)) \<inter> set (t_buckets t') = {}"
    using disj unfolding 2(3) by blast
  moreover have "set (t_buckets (table1 s)) \<union> set (t_buckets t') = {..<length hp'}"
    using un unfolding 2(3) by (simp only: Un_commute)
  ultimately show ?thesis
    unfolding s' xuckoo_inv_def using t' o b bo unfolding 2(3) by simp
qed

lemma xuckoo_inv_cong:
  assumes inv: "xuckoo_inv e s"
    and len: "length (heap s') = length (heap s)"
    and same: "\<And>p. p < length (heap s) \<Longrightarrow>
        b_id (heap s' ! p) = b_id (heap s ! p) \<and> b_depth (heap s' ! p) = b_depth (heap s ! p)"
    and t1: "t_buckets (table1 s') = t_buckets (table1 s)" "t_size (table1 s') = t_size (table1 s)"
        "t_depth (table1 s') = t_depth (table1 s)"
    and t2: "t_buckets (table2 s') = t_buckets (table2 s)" "t_size (table2 s') = t_size (table2 s)"
        "t_depth (table2 s') = t_depth (table2 s)"
  shows "xuckoo_inv e s'"
proof -
  from inv have i1: "tbl_inv (heap s) (table1 s)" and i2: "tbl_inv (heap s) (table2 s)"
    unfolding xuckoo_inv_def by blast+
  have "tbl_inv (heap s') (table1 s)"
    by (rule tbl_inv_cong [OF i1]) (use len same in auto)
  then have 1: "tbl_inv (heap s') (table1 s')" by (simp only: tbl_inv_fields [OF t1])
  have "tbl_inv (heap s') (table2 s)"
    by (rule tbl_inv_cong [OF i2]) (use len same in auto)
  then have 2: "tbl_inv (heap s') (table2 s')" by (simp only: tbl_inv_fields [OF t2])
  from inv 1 2 show ?thesis
    unfolding xuckoo_inv_def by (simp only: t1 t2 len)
qed

lemma nth_upd_id:
  assumes "\<And>b. b_id (f b) = b_id b"
  shows "b_id (hp[x := f (hp ! x)] ! y) = b_id (hp ! y)"
proof (cases "x < length hp")
  case True
  then show ?thesis using assms by (simp add: nth_list_update)
next
  case False
  then have "hp[x := f (hp ! x)] = hp" by (simp add: list_update_beyond)
  then show ?thesis by (simp only:)
qed

lemma nth_upd_depth:
  assumes "\<And>b. b_depth (f b) = b_depth b"
  shows "b_depth (hp[x := f (hp ! x)] ! y) = b_depth (hp ! y)"
proof (cases "x < length hp")
  case True
  then show ?thesis using assms by (simp add: nth_list_update)
next
  case False
  then have "hp[x := f (hp ! x)] = hp" by (simp add: list_update_beyond)
  then show ?thesis by (simp only:)
qed

lemma xuckoo_inv_lookup_state:
  assumes "xuckoo_inv e s"
  shows "xuckoo_inv e (s\<lparr>stats := st, ticks := k\<rparr>)"
  by (rule xuckoo_inv_cong [OF assms]) simp_all

lemma xuckoo_inv_ticks:
  assumes "xuckoo_inv e s"
  shows "xuckoo_inv e (s\<lparr>ticks := k\<rparr>)"
  by (rule xuckoo_inv_cong [OF assms]) simp_all

lemma xuckoo_inv_swap:
  assumes "xuckoo_inv e s"
  shows "xuckoo_inv e (s\<lparr>heap := (heap s)[p := (heap s ! p)\<lparr>b_key := key\<rparr>]\<rparr>)"
    (is "xuckoo_inv e ?s'")
proof (rule xuckoo_inv_cong [OF assms])
  have hp: "heap ?s' = (heap s)[p := (\<lambda>b. b\<lparr>b_key := key\<rparr>) (heap s ! p)]"
    by simp
  show "length (heap ?s') = length (heap s)" unfolding hp by simp
  show "b_id (heap ?s' ! x) = b_id (heap s ! x) \<and> b_depth (heap ?s' ! x) = b_depth (heap s ! x)" for x
    unfolding hp by (intro conjI nth_upd_id nth_upd_depth) simp_all
qed simp_all

lemma xuckoo_inv_place:
  assumes "xuckoo_inv e s" and "n = 1 \<or> n = 2"
  shows "xuckoo_inv e
           ((set_table (s\<lparr>heap := (heap s)[p := (heap s ! p)\<lparr>b_key := key, b_full := True\<rparr>]\<rparr>) n
               ((get_table s n)\<lparr>t_nkeys := k\<rparr>))\<lparr>stats := st\<rparr>)"
    (is "xuckoo_inv e ?s'")
proof (rule xuckoo_inv_cong [OF assms(1)])
  have hp: "heap ?s' = (heap s)[p := (\<lambda>b. b\<lparr>b_key := key, b_full := True\<rparr>) (heap s ! p)]"
    by (simp add: set_table_def)
  show "length (heap ?s') = length (heap s)" unfolding hp by simp
  show "b_id (heap ?s' ! x) = b_id (heap s ! x) \<and> b_depth (heap ?s' ! x) = b_depth (heap s ! x)" for x
    unfolding hp by (intro conjI nth_upd_id nth_upd_depth) simp_all
  show "t_buckets (table1 ?s') = t_buckets (table1 s)" "t_size (table1 ?s') = t_size (table1 s)"
    "t_depth (table1 ?s') = t_depth (table1 s)"
    "t_buckets (table2 ?s') = t_buckets (table2 s)" "t_size (table2 ?s') = t_size (table2 s)"
    "t_depth (table2 ?s') = t_depth (table2 s)"
    using assms(2) by (auto simp: set_table_def get_table_def)
qed

lemma xuckoo_inv_fresh: "xuckoo_inv e (new_xuckoo_hash_table e)"
  by (auto simp: xuckoo_inv_def tbl_inv_def new_xuckoo_hash_table_def new_inner_table_def
      new_bucket_def)

lemma xuckoo_inv_heap_bound:
  assumes "xuckoo_inv e s"
  shows "length (heap s) < 2 * max 2 (MAX_TABLE_SIZE e)"
proof -
  let ?b1 = "t_buckets (table1 s)" and ?b2 = "t_buckets (table2 s)"
  from assms have u: "set ?b1 \<union> set ?b2 = {..<length (heap s)}"
    and i1: "tbl_inv (heap s) (table1 s)" and i2: "tbl_inv (heap s) (table2 s)"
    and b1: "t_size (table1 s) < max 2 (MAX_TABLE_SIZE e)"
    and b2: "t_size (table2 s) < max 2 (MAX_TABLE_SIZE e)"
    unfolding xuckoo_inv_def by blast+
  have "length (heap s) = card (set ?b1 \<union> set ?b2)" by (simp only: u card_lessThan)
  also have "\<dots> \<le> card (set ?b1) + card (set ?b2)" by (rule card_Un_le)
  also have "\<dots> \<le> length ?b1 + length ?b2" by (intro add_mono card_length)
  also have "\<dots> = t_size (table1 s) + t_size (table2 s)"
    by (simp only: tbl_invD(2) [OF i1] tbl_invD(2) [OF i2])
  finally show ?thesis using b1 b2 by linarith
qed

section \<open>Splitting preserves the invariant\<close>

lemma split_bucket_unfold:
  assumes "slot_ok (heap s) (get_table s n) address"
    and "(if b_depth (heap s ! (t_buckets (get_table s n) ! address)) = t_depth (get_table s n)
          then double_table e (get_table s n) else Inr (get_table s n)) = Inr t1"
    and "slot_ok (heap s) t1 address"
    and "\<not> t_depth t1 < b_depth (heap s ! (t_buckets t1 ! address)) + 1"
    and "redirect 0 (push_bit (t_depth t1 - (b_depth (heap s ! (t_buckets t1 ! address)) + 1)) 1)
           (b_depth (heap s ! (t_buckets t1 ! address)) + 1)
           (push_bit (b_depth (heap s ! (t_buckets t1 ! address))) 1 OR
              rightmostnbits (b_depth (heap s ! (t_buckets t1 ! address)))
                (b_id (heap s ! (t_buckets t1 ! address))))
           (length (heap s)) (t_buckets t1) = Inr bs'"
    and "hp2 = (heap s)[t_buckets t1 ! address :=
                   (heap s ! (t_buckets t1 ! address))
                     \<lparr>b_depth := b_depth (heap s ! (t_buckets t1 ! address)) + 1\<rparr>] @
               [\<lparr>b_id = push_bit (b_depth (heap s ! (t_buckets t1 ! address))) 1 OR
                         b_id (heap s ! (t_buckets t1 ! address)),
                 b_depth = b_depth (heap s ! (t_buckets t1 ! address)) + 1,
                 b_full = False, b_key = junk e (length (heap s))\<rparr>]"
    and "reinsert_key e (hp2[t_buckets t1 ! address := (hp2 ! (t_buckets t1 ! address))\<lparr>b_full := False\<rparr>])
           (t1\<lparr>t_buckets := bs'\<rparr>) (b_key (hp2 ! (t_buckets t1 ! address))) n = Inr hp4"
  shows "split_bucket e s address n =
           Inr ((set_table s n (t1\<lparr>t_buckets := bs'\<rparr>))
                  \<lparr>heap := hp4, stats := (stats s)\<lparr>s_nbuckets := s_nbuckets (stats s) + 1\<rparr>\<rparr>)"
  unfolding split_bucket_def Let_def new_bucket_def
  apply (simp only: assms(1) assms(2) assms(3) not_True_eq_False if_False sum.case)
  apply (simp only: assms(4) if_False prod.case length_list_update assms(5) sum.case assms(6) [symmetric] assms(7))
  done


lemma split_bucket_inv:
  assumes inv: "xuckoo_inv e s" and n: "n = 1 \<or> n = 2" and a: "a < t_size (get_table s n)"
  shows "split_bucket e s a n = Inl TableTooLarge \<or>
         (\<exists>s'. split_bucket e s a n = Inr s' \<and> xuckoo_inv e s' \<and>
               length (heap s') = length (heap s) + 1)"
proof -
  let ?t = "get_table s n" and ?o = "get_table s (3 - n)" and ?hp = "heap s"
  let ?q = "length (heap s)"
  note G = xuckoo_inv_get [OF inv n]
  note ti = G(1)
  define p where "p = t_buckets ?t ! a"
  define d where "d = b_depth (?hp ! p)"
  define fid where "fid = b_id (?hp ! p)"
  note len = tbl_invD(2) [OF ti]
  have plt: "p < ?q" unfolding p_def by (rule tbl_invD(3) [OF ti a])
  have ok: "slot_ok ?hp ?t a"
    unfolding slot_ok_def using a len plt by (simp add: p_def)
  have dle: "d \<le> t_depth ?t" unfolding d_def p_def by (rule tbl_invD(4) [OF ti a])
  let ?grow = "if b_depth (?hp ! (t_buckets ?t ! a)) = t_depth ?t
               then double_table e ?t else Inr ?t"
  consider (fail) "?grow = Inl TableTooLarge"
    | (grown) t1 where "?grow = Inr t1" "tbl_inv ?hp t1" "a < t_size t1" "t_buckets t1 ! a = p"
        "d < t_depth t1" "set (t_buckets t1) = set (t_buckets ?t)"
        "t_size t1 < max 2 (MAX_TABLE_SIZE e)"
  proof (cases "d = t_depth ?t")
    case True
    then have c: "b_depth (?hp ! (t_buckets ?t ! a)) = t_depth ?t" by (simp add: d_def p_def)
    show ?thesis
    proof (cases "t_size ?t * 2 < MAX_TABLE_SIZE e")
      case False
      then have "?grow = Inl TableTooLarge" using c by (simp add: double_table_eq [OF len])
      then show ?thesis by (rule fail)
    next
      case lt: True
      let ?t1 = "?t\<lparr>t_buckets := t_buckets ?t @ t_buckets ?t, t_size := t_size ?t * 2,
                     t_depth := t_depth ?t + 1\<rparr>"
      have "?grow = Inr ?t1" using c lt by (simp add: double_table_eq [OF len])
      moreover have "tbl_inv ?hp ?t1" by (rule tbl_inv_double [OF ti])
      moreover have "a < t_size ?t1" using a by simp
      moreover have "t_buckets ?t1 ! a = p" using a len by (simp add: nth_append p_def)
      moreover have "d < t_depth ?t1" using True by simp
      moreover have "set (t_buckets ?t1) = set (t_buckets ?t)" by simp
      moreover have "t_size ?t1 < max 2 (MAX_TABLE_SIZE e)" using lt by simp
      ultimately show ?thesis by (rule grown)
    qed
  next
    case False
    then have c: "b_depth (?hp ! (t_buckets ?t ! a)) \<noteq> t_depth ?t" by (simp add: d_def p_def)
    then have "?grow = Inr ?t" by simp
    moreover have "d < t_depth ?t" using False dle by simp
    ultimately show ?thesis using ti a G(5) by (intro grown [of ?t]) (simp_all add: p_def)
  qed
  then show ?thesis
  proof cases
    case fail
    then have "split_bucket e s a n = Inl TableTooLarge"
      unfolding split_bucket_def Let_def by (simp only: ok not_True_eq_False if_False sum.case)
    then show ?thesis ..
  next
    case (grown t1)
    note t1 = grown(2) and a1 = grown(3) and p1 = grown(4) and dlt = grown(5)
    note sz1 = tbl_invD(1) [OF t1] and len1 = tbl_invD(2) [OF t1]
    have ok1: "slot_ok ?hp t1 a"
      unfolding slot_ok_def using a1 len1 plt by (simp add: p1)
    have fid_eq: "fid = a mod 2 ^ d"
      using tbl_invD(5) [OF t1 a1] by (simp only: p1 d_def [symmetric] fid_def [symmetric])
    then have fid_lt: "fid < 2 ^ d" by simp
    have rm: "rightmostnbits d fid = fid" using fid_lt by (simp add: rightmostnbits_mod)
    have suffix: "push_bit d 1 OR fid = 2 ^ d + fid" by (rule one_or_add [OF fid_lt])
    have suffix_lt: "2 ^ d + fid < 2 ^ (d + 1)" using fid_lt by simp
    have lenbs: "length (t_buckets t1) = 2 ^ t_depth t1" using len1 sz1 by simp
    have dle1: "d + 1 \<le> t_depth t1" using dlt by simp
    from redirect_split [OF lenbs dle1 suffix_lt, of ?q]
    obtain bs' where red: "redirect 0 (push_bit (t_depth t1 - (d + 1)) 1) (d + 1) (2 ^ d + fid) ?q
                             (t_buckets t1) = Inr bs'"
      and lenbs': "length bs' = length (t_buckets t1)"
      and nth: "\<And>j. j < t_size t1 \<Longrightarrow>
                  bs' ! j = (if j mod 2 ^ (d + 1) = 2 ^ d + fid then ?q else t_buckets t1 ! j)"
      using len1 by auto
    define hp2 where "hp2 = ?hp[p := (?hp ! p)\<lparr>b_depth := d + 1\<rparr>] @
               [\<lparr>b_id = 2 ^ d + fid, b_depth = d + 1, b_full = False, b_key = junk e ?q\<rparr>]"
    define hp3 where "hp3 = hp2[p := (hp2 ! p)\<lparr>b_full := False\<rparr>]"
    let ?t2 = "t1\<lparr>t_buckets := bs'\<rparr>"
    define addr where "addr = rightmostnbits (t_depth ?t2) (hash_of e n (b_key (hp2 ! p)))"
    define p' where "p' = bs' ! addr"
    define hp4 where "hp4 = hp3[p' := (\<lambda>b. b\<lparr>b_key := b_key (hp2 ! p), b_full := True\<rparr>) (hp3 ! p')]"
    have len2: "length hp2 = ?q + 1" by (simp add: hp2_def)
    have len3: "length hp3 = ?q + 1" by (simp add: hp3_def len2)
    have len4: "length hp4 = ?q + 1" by (simp add: hp4_def len3)
    have addr_lt: "addr < t_size t1"
      unfolding addr_def sz1 using rightmostnbits_less [of "t_depth t1"] by simp
    have p'_lt: "p' < length hp3"
    proof -
      have "t_buckets t1 ! addr < ?q" by (rule tbl_invD(3) [OF t1 addr_lt])
      with nth [OF addr_lt] show ?thesis unfolding p'_def len3 by simp
    qed
    have re: "reinsert_key e hp3 ?t2 (b_key (hp2 ! p)) n = Inr hp4"
      unfolding reinsert_key_def Let_def addr_def [symmetric] p'_def [symmetric] hp4_def
      using addr_lt lenbs' len1 p'_lt by (simp add: p'_def)
    have split: "split_bucket e s a n =
           Inr ((set_table s n ?t2)
                  \<lparr>heap := hp4, stats := (stats s)\<lparr>s_nbuckets := s_nbuckets (stats s) + 1\<rparr>\<rparr>)"
    proof (rule split_bucket_unfold [OF ok grown(1) ok1, where ?hp2.0 = hp2])
      show "\<not> t_depth t1 < b_depth (?hp ! (t_buckets t1 ! a)) + 1"
        unfolding p1 d_def [symmetric] using dlt by simp
      show "redirect 0 (push_bit (t_depth t1 - (b_depth (?hp ! (t_buckets t1 ! a)) + 1)) 1)
           (b_depth (?hp ! (t_buckets t1 ! a)) + 1)
           (push_bit (b_depth (?hp ! (t_buckets t1 ! a))) 1 OR
              rightmostnbits (b_depth (?hp ! (t_buckets t1 ! a)))
                (b_id (?hp ! (t_buckets t1 ! a))))
           ?q (t_buckets t1) = Inr bs'"
        unfolding p1 d_def [symmetric] fid_def [symmetric] rm suffix by (rule red)
      show "hp2 = ?hp[t_buckets t1 ! a :=
                   (?hp ! (t_buckets t1 ! a))
                     \<lparr>b_depth := b_depth (?hp ! (t_buckets t1 ! a)) + 1\<rparr>] @
               [\<lparr>b_id = push_bit (b_depth (?hp ! (t_buckets t1 ! a))) 1 OR
                         b_id (?hp ! (t_buckets t1 ! a)),
                 b_depth = b_depth (?hp ! (t_buckets t1 ! a)) + 1,
                 b_full = False, b_key = junk e ?q\<rparr>]"
        unfolding p1 d_def [symmetric] fid_def [symmetric] suffix by (rule hp2_def)
      show "reinsert_key e (hp2[t_buckets t1 ! a := (hp2 ! (t_buckets t1 ! a))\<lparr>b_full := False\<rparr>])
           ?t2 (b_key (hp2 ! (t_buckets t1 ! a))) n = Inr hp4"
        unfolding p1 hp3_def [symmetric] by (rule re)
    qed
    have shape43: "b_id (hp4 ! y) = b_id (hp3 ! y) \<and> b_depth (hp4 ! y) = b_depth (hp3 ! y)" for y
      unfolding hp4_def by (intro conjI nth_upd_id nth_upd_depth) simp_all
    have shape32: "b_id (hp3 ! y) = b_id (hp2 ! y) \<and> b_depth (hp3 ! y) = b_depth (hp2 ! y)" for y
    proof
      show "b_id (hp3 ! y) = b_id (hp2 ! y)"
        unfolding hp3_def by (rule nth_upd_id [where f = "\<lambda>b. b\<lparr>b_full := False\<rparr>"]) simp
      show "b_depth (hp3 ! y) = b_depth (hp2 ! y)"
        unfolding hp3_def by (rule nth_upd_depth [where f = "\<lambda>b. b\<lparr>b_full := False\<rparr>"]) simp
    qed
    have hp2_p: "hp2 ! p = (?hp ! p)\<lparr>b_depth := d + 1\<rparr>"
      using plt by (simp add: hp2_def nth_append)
    have hp2_q: "hp2 ! ?q = \<lparr>b_id = 2 ^ d + fid, b_depth = d + 1, b_full = False, b_key = junk e ?q\<rparr>"
      by (simp add: hp2_def nth_append)
    have hp2_other: "hp2 ! y = ?hp ! y" if "y < ?q" "y \<noteq> p" for y
      using that by (simp add: hp2_def nth_append)
    have inv2: "tbl_inv hp4 ?t2" and set2: "set bs' = insert ?q (set (t_buckets t1))"
    proof -
      have 1: "p = t_buckets t1 ! a" by (simp add: p1)
      have 2: "length hp4 = ?q + 1" by (rule len4)
      have 3: "b_depth (hp4 ! p) = d + 1" "b_id (hp4 ! p) = fid"
        using shape43 [of p] shape32 [of p] hp2_p by (simp_all add: fid_def)
      have 4: "b_depth (hp4 ! ?q) = d + 1" "b_id (hp4 ! ?q) = 2 ^ d + fid"
        using shape43 [of ?q] shape32 [of ?q] hp2_q by simp_all
      have 5: "b_depth (hp4 ! y) = b_depth (?hp ! y) \<and> b_id (hp4 ! y) = b_id (?hp ! y)"
        if "y < ?q" "y \<noteq> p" for y
        using shape43 [of y] shape32 [of y] hp2_other [OF that] by simp
      show "tbl_inv hp4 ?t2"
        by (rule tbl_inv_split(1) [OF t1 a1 1 d_def dlt fid_def 2 3 4 5 lenbs' nth])
      show "set bs' = insert ?q (set (t_buckets t1))"
        by (rule tbl_inv_split(2) [OF t1 a1 1 d_def dlt fid_def 2 3 4 5 lenbs' nth])
    qed
    have p_in: "p \<in> set (t_buckets ?t)"
      unfolding p_def using a len by simp
    have invo: "tbl_inv hp4 ?o"
    proof (rule tbl_inv_cong [OF G(2)])
      fix y assume y: "y \<in> set (t_buckets ?o)" "y < ?q"
      with G(3) p_in have "y \<noteq> p" by blast
      with y(2) shape43 [of y] shape32 [of y] hp2_other [of y] len4
      show "y < length hp4 \<and> b_id (hp4 ! y) = b_id (?hp ! y) \<and> b_depth (hp4 ! y) = b_depth (?hp ! y)"
        by simp
    qed
    have q_notin: "?q \<notin> set (t_buckets ?o)" using G(4) by blast
    have disj: "set (t_buckets ?t2) \<inter> set (t_buckets ?o) = {}"
      using set2 grown(6) G(3) q_notin by simp
    have un: "set (t_buckets ?t2) \<union> set (t_buckets ?o) = {..<length hp4}"
    proof -
      have "set (t_buckets ?t2) \<union> set (t_buckets ?o) = insert ?q {..<?q}"
        using set2 grown(6) G(4) by simp
      also have "\<dots> = {..<length hp4}" unfolding len4 by (simp add: lessThan_Suc)
      finally show ?thesis .
    qed
    have b2: "t_size ?t2 < max 2 (MAX_TABLE_SIZE e)" using grown(7) by simp
    have "xuckoo_inv e ((set_table s n ?t2)
                  \<lparr>heap := hp4, stats := (stats s)\<lparr>s_nbuckets := s_nbuckets (stats s) + 1\<rparr>\<rparr>)"
      by (rule xuckoo_inv_set [OF n inv2 invo disj un b2 G(6)])
    with split len4 show ?thesis by simp
  qed
qed

section \<open>Every call returns\<close>

lemma returns_well_Inr:
  "run e s c = Some (Inr (s', b)) \<Longrightarrow> xuckoo_inv e s' \<Longrightarrow> returns_well e s c"
  by blast

lemma returns_well_Inl:
  "run e s c = Some (Inl TableTooLarge) \<Longrightarrow> returns_well e s c"
  by blast

lemma run_Try_total:
  assumes IH: "\<And>s' k. xuckoo_inv e s' \<Longrightarrow> length (heap s') = L + 1
                 \<Longrightarrow> returns_well e s' (Insert k)"
  shows "xuckoo_inv e s \<Longrightarrow> length (heap s) = L
           \<Longrightarrow> returns_well e s (Try key orig_pos orig_key loop orig_table)"
proof (induction "t_size (table1 s) + t_size (table2 s) + 1 - loop" arbitrary: s key loop
    rule: less_induct)
  case less
  note inv = less.prems(1)
  define n where "n = active_table_no (loop + 1)"
  define a where "a = rightmostnbits (t_depth (get_table s n)) (hash_of e n key)"
  have n12: "n = 1 \<or> n = 2" unfolding n_def by (rule active_table_no_cases)
  note G = xuckoo_inv_get [OF inv n12]
  have alt: "a < t_size (get_table s n)"
    unfolding a_def tbl_invD(1) [OF G(1)] by (rule rightmostnbits_less)
  show ?case
  proof (cases "(a = orig_pos \<and> key = orig_key \<and> loop + 1 > 3)
                  \<or> loop + 1 > t_size (table1 s) + t_size (table2 s)")
    case True
    have run: "run e s (Try key orig_pos orig_key loop orig_table) =
        (case split_bucket e s a n of Inl err \<Rightarrow> Some (Inl err) | Inr s' \<Rightarrow> run e s' (Insert key))"
      unfolding a_def n_def by (rule run_Try_split) (use True in \<open>simp only: a_def n_def\<close>)
    from split_bucket_inv [OF inv n12 alt] show ?thesis
    proof (elim disjE exE conjE)
      assume "split_bucket e s a n = Inl TableTooLarge"
      then have "run e s (Try key orig_pos orig_key loop orig_table) = Some (Inl TableTooLarge)"
        unfolding run by simp
      then show ?thesis by (rule returns_well_Inl)
    next
      fix s' assume s': "split_bucket e s a n = Inr s'" "xuckoo_inv e s'"
        "length (heap s') = length (heap s) + 1"
      from IH [OF s'(2)] s'(3) less.prems(2) have "returns_well e s' (Insert key)" by simp
      moreover have "run e s (Try key orig_pos orig_key loop orig_table) = run e s' (Insert key)"
        unfolding run s'(1) by simp
      ultimately show ?thesis by (simp only:)
    qed
  next
    case False
    have ok: "slot_ok (heap s) (get_table s n) a"
      unfolding a_def by (rule tbl_inv_slot_ok [OF G(1)])
    define p where "p = t_buckets (get_table s n) ! a"
    show ?thesis
    proof (cases "b_full (heap s ! p)")
      case True
      let ?s = "s\<lparr>heap := (heap s)[p := (heap s ! p)\<lparr>b_key := key\<rparr>]\<rparr>"
      have run: "run e s (Try key orig_pos orig_key loop orig_table) =
          run e ?s (Try (b_key (heap s ! p)) orig_pos orig_key (loop + 1) orig_table)"
        by (rule run_Try_swap [OF n_def a_def False ok p_def True])
      have "t_size (table1 ?s) + t_size (table2 ?s) + 1 - (loop + 1)
              < t_size (table1 s) + t_size (table2 s) + 1 - loop"
      proof -
        from False have "loop + 1 \<le> t_size (table1 s) + t_size (table2 s)" by simp
        then show ?thesis by simp
      qed
      moreover have "xuckoo_inv e ?s" by (rule xuckoo_inv_swap [OF inv])
      moreover have "length (heap ?s) = L" using less.prems(2) by simp
      ultimately have "returns_well e ?s (Try (b_key (heap s ! p)) orig_pos orig_key (loop + 1) orig_table)"
        by (rule less.hyps)
      then show ?thesis unfolding run .
    next
      case False': False
      let ?s = "(set_table (s\<lparr>heap := (heap s)[p := (heap s ! p)\<lparr>b_key := key, b_full := True\<rparr>]\<rparr>)
                         n ((get_table s n)\<lparr>t_nkeys := t_nkeys (get_table s n) + 1\<rparr>))
                      \<lparr>stats := (stats s)\<lparr>s_nkeys := s_nkeys (stats s) + 1\<rparr>\<rparr>"
      have run: "run e s (Try key orig_pos orig_key loop orig_table) = Some (Inr (?s, True))"
        by (rule run_Try_place [OF n_def a_def False ok p_def False'])
      have "xuckoo_inv e ?s" by (rule xuckoo_inv_place [OF inv n12])
      with run show ?thesis by (rule returns_well_Inr)
    qed
  qed
qed

lemma run_Insert_total:
  assumes Try: "\<And>s' key orig_pos orig_key loop orig_table.
                  xuckoo_inv e s' \<Longrightarrow> length (heap s') = length (heap s)
                    \<Longrightarrow> returns_well e s' (Try key orig_pos orig_key loop orig_table)"
    and inv: "xuckoo_inv e s"
  shows "returns_well e s (Insert key)"
proof -
  let ?s0 = "s\<lparr>ticks := ticks s + 1\<rparr>"
  have inv0: "xuckoo_inv e ?s0" by (rule xuckoo_inv_ticks [OF inv])
  let ?s1 = "?s0\<lparr>stats := (stats ?s0)\<lparr>s_time := s_time (stats ?s0) + (clock e (ticks ?s0 + 1) - clock e (ticks ?s0))\<rparr>,
                  ticks := ticks ?s0 + 2\<rparr>"
  have l: "xuckoo_hash_table_lookup e ?s0 key = Inr (?s1, lookup_spec e ?s0 key)"
    by (rule lookup_eq_inv [OF inv0])
  have inv1: "xuckoo_inv e ?s1" by (rule xuckoo_inv_lookup_state [OF inv0])
  have len1: "length (heap ?s1) = length (heap s)" by simp
  show ?thesis
  proof (cases "lookup_spec e ?s0 key")
    case True
    with l have "run e s (Insert key) = Some (Inr (?s1, False))"
      by (intro run_Insert_present) simp
    then show ?thesis using inv1 by (rule returns_well_Inr)
  next
    case False
    let ?c = "if t_nkeys (table1 ?s1) \<le> t_nkeys (table2 ?s1)
              then Try key (rightmostnbits (t_depth (table1 ?s1)) (h1 e key)) key 0 1
              else Try key (rightmostnbits (t_depth (table2 ?s1)) (h2 e key)) key 1 2"
    from False l have run: "run e s (Insert key) =
        Option.bind (run e ?s1 ?c) (finish_insert e (clock e (ticks s)))"
      by (intro run_Insert_absent) simp
    have "returns_well e ?s1 ?c"
      using Try [OF inv1 len1] by (cases "t_nkeys (table1 ?s1) \<le> t_nkeys (table2 ?s1)") simp_all
    then obtain r where r: "run e ?s1 ?c = Some r"
      and good: "r = Inl TableTooLarge \<or> (\<exists>s' b. r = Inr (s', b) \<and> xuckoo_inv e s')"
      by blast
    from good show ?thesis
    proof (elim disjE exE conjE)
      assume "r = Inl TableTooLarge"
      then have "run e s (Insert key) = Some (Inl TableTooLarge)"
        unfolding run r by (simp add: finish_insert_def)
      then show ?thesis by (rule returns_well_Inl)
    next
      fix s' b assume s': "r = Inr (s', b)" "xuckoo_inv e s'"
      let ?s' = "s'\<lparr>stats := (stats s')\<lparr>s_time := s_time (stats s') + (clock e (ticks s') - clock e (ticks s))\<rparr>,
                       ticks := ticks s' + 1\<rparr>"
      have "run e s (Insert key) = Some (Inr (?s', True))"
        unfolding run r s'(1) by (simp add: finish_insert_def)
      moreover have "xuckoo_inv e ?s'"
        by (rule xuckoo_inv_lookup_state [OF s'(2)])
      ultimately show ?thesis by (rule returns_well_Inr)
    qed
  qed
qed

lemma run_total:
  "xuckoo_inv e s \<Longrightarrow> returns_well e s c"
proof (induction "2 * max 2 (MAX_TABLE_SIZE e) - length (heap s)" arbitrary: s c rule: less_induct)
  case less
  note inv = less.prems
  have ins: "returns_well e s' (Insert k)"
    if "xuckoo_inv e s'" "length (heap s') = length (heap s) + 1" for s' k
  proof (rule less.hyps [OF _ that(1)])
    from xuckoo_inv_heap_bound [OF that(1)] that(2)
    show "2 * max 2 (MAX_TABLE_SIZE e) - length (heap s')
            < 2 * max 2 (MAX_TABLE_SIZE e) - length (heap s)" by simp
  qed
  have tr: "returns_well e s' (Try key orig_pos orig_key loop orig_table)"
    if "xuckoo_inv e s'" "length (heap s') = length (heap s)"
    for s' key orig_pos orig_key loop orig_table
    using ins that by (rule run_Try_total)
  show ?case
  proof (cases c)
    case (Insert key)
    show ?thesis unfolding Insert using tr inv by (rule run_Insert_total)
  next
    case (Try key orig_pos orig_key loop orig_table)
    show ?thesis unfolding Try using inv by (rule tr) simp
  qed
qed

lemma reachable_inv: "reachable e s \<Longrightarrow> xuckoo_inv e s"
proof (induction rule: reachable.induct)
  case fresh
  show ?case by (rule xuckoo_inv_fresh)
next
  case (insert s key s' b)
  from run_total [OF insert.IH, of "Insert key"] insert.hyps(2)
  show ?case by (simp add: xuckoo_hash_table_insert_def)
next
  case (lookup s key s' b)
  from lookup.hyps(2) have "s' = s\<lparr>stats := stats s', ticks := ticks s'\<rparr>"
    unfolding lookup_eq_inv [OF lookup.IH] by auto
  then show ?case using xuckoo_inv_lookup_state [OF lookup.IH] by metis
qed

section \<open>Termination of insert\<close>

lemma insert_returns_reachable:
  assumes "reachable e s"
  shows "\<exists>r. xuckoo_hash_table_insert e s key = Some r \<and>
             (r = Inl TableTooLarge \<or> (\<exists>s' b. r = Inr (s', b) \<and> reachable e s'))"
proof -
  from run_total [OF reachable_inv [OF assms], of "Insert key"]
  obtain r where r: "run e s (Insert key) = Some r"
    and good: "r = Inl TableTooLarge \<or> (\<exists>s' b. r = Inr (s', b) \<and> xuckoo_inv e s')"
    by (elim exE conjE)
  from good show ?thesis
  proof (elim disjE exE conjE)
    assume "r = Inl TableTooLarge"
    with r have "xuckoo_hash_table_insert e s key = Some r \<and> r = Inl TableTooLarge"
      by (simp add: xuckoo_hash_table_insert_def)
    then show ?thesis by (intro exI [of _ r]) simp
  next
    fix s' b assume eq: "r = Inr (s', b)"
    with r have i: "xuckoo_hash_table_insert e s key = Some (Inr (s', b))"
      by (simp add: xuckoo_hash_table_insert_def)
    with assms have "reachable e s'" by (rule reachable.insert)
    then have "\<exists>s'' b'. Inr (s', b) = Inr (s'', b') \<and> reachable e s''" by blast
    with i show ?thesis by (intro exI [of _ "Inr (s', b)"]) simp
  qed
qed


lemma inserts_return:
  "reachable e s \<Longrightarrow> \<exists>r. inserts e s ks = Some r"
proof (induction ks arbitrary: s)
  case Nil
  show ?case by simp
next
  case (Cons k ks)
  from insert_returns_reachable [OF Cons.prems, of k]
  obtain r where r: "xuckoo_hash_table_insert e s k = Some r"
    and good: "r = Inl TableTooLarge \<or> (\<exists>s' b. r = Inr (s', b) \<and> reachable e s')"
    by (elim exE conjE)
  from good show ?case
  proof (elim disjE exE conjE)
    assume "r = Inl TableTooLarge"
    with r have "inserts e s (k # ks) = Some (Inl TableTooLarge)" by simp
    then show ?thesis by (rule exI)
  next
    fix s' b assume s': "r = Inr (s', b)" "reachable e s'"
    from Cons.IH [OF s'(2)] obtain r' where r': "inserts e s' ks = Some r'" by (elim exE)
    show ?thesis
    proof (cases r')
      case (Inl err)
      with r s'(1) r' have "inserts e s (k # ks) = Some (Inl err)" by simp
      then show ?thesis by (rule exI)
    next
      case (Inr x)
      obtain s'' bs where "x = (s'', bs)" by (cases x)
      with Inr r s'(1) r' have "inserts e s (k # ks) = Some (Inr (s'', b # bs))" by simp
      then show ?thesis by (rule exI)
    qed
  qed
qed


text \<open>
  Claim C9. Whatever the two hash functions, the maximum table size, the clock and the
  contents of fresh memory are: in every state reachable from a fresh table an insert
  returns, and so does every finite sequence of inserts. The call ends either normally or
  in the abort of \<open>double_table\<close>'s size assertion (never in undefined behaviour): each
  split adds a bucket, the number of buckets is bounded through \<open>MAX_TABLE_SIZE\<close>, and
  between two splits the loop counter grows up to the sum of the two table sizes.
\<close>

theorem insert_terminates:
  assumes "reachable e s"
  shows "(\<exists>r. xuckoo_hash_table_insert e s key = Some r \<and> r \<noteq> Inl UndefinedBehaviour) \<and>
         (\<exists>r. inserts e s ks = Some r)"
proof
  from insert_returns_reachable [OF assms, of key]
  obtain r where r: "xuckoo_hash_table_insert e s key = Some r"
    and good: "r = Inl TableTooLarge \<or> (\<exists>s' b. r = Inr (s', b) \<and> reachable e s')"
    by (elim exE conjE)
  from good have "r \<noteq> Inl UndefinedBehaviour" by (elim disjE exE conjE) simp_all
  with r show "\<exists>r. xuckoo_hash_table_insert e s key = Some r \<and> r \<noteq> Inl UndefinedBehaviour"
    by (intro exI [of _ r]) simp
  show "\<exists>r. inserts e s ks = Some r" by (rule inserts_return [OF assms])
qed

theorem insert_terminates_witness:
  "(\<exists>r. xuckoo_hash_table_insert shift_env (new_xuckoo_hash_table shift_env) 6 = Some r \<and>
        r \<noteq> Inl UndefinedBehaviour) \<and>
   (\<exists>r. inserts shift_env (new_xuckoo_hash_table shift_env) [2, 4, 6] = Some r)"
  by (rule insert_terminates [OF reachable.fresh])

text \<open>
  With hash functions that collide on every key the recursion does end in that abort:
  each restart splits again until a table would reach the maximum size.
\<close>

lemma colliding_hashes_abort:
  "inserts zero_env (new_xuckoo_hash_table zero_env) [1, 2, 3] = Some (Inl TableTooLarge)"
  by code_simp

section \<open>Slot sharing\<close>

lemma card_residue:
  fixes r :: nat
  assumes "r < 2 ^ d" and "d \<le> D"
  shows "card {j. j < 2 ^ D \<and> j mod 2 ^ d = r} = 2 ^ (D - d)"
proof -
  let ?f = "\<lambda>k::nat. k * 2 ^ d + r"
  have "{j. j < 2 ^ D \<and> j mod 2 ^ d = r} = ?f ` {..<2 ^ (D - d)}"
  proof (intro set_eqI iffI)
    fix j assume "j \<in> {j. j < 2 ^ D \<and> j mod 2 ^ d = r}"
    then have j: "j < 2 ^ D" "j mod 2 ^ d = r" by simp_all
    from residue_iff [OF j(1) assms(2,1)] j(2)
    obtain k where "k < 2 ^ (D - d)" "j = ?f k" by blast
    then show "j \<in> ?f ` {..<2 ^ (D - d)}" by blast
  next
    fix j assume "j \<in> ?f ` {..<2 ^ (D - d)}"
    then obtain k where k: "k < 2 ^ (D - d)" "j = ?f k" by blast
    have "?f k < (k + 1) * 2 ^ d" using assms(1) by simp
    also have "\<dots> \<le> 2 ^ (D - d) * 2 ^ d" using k(1) by (intro mult_le_mono1) simp
    also have "\<dots> = 2 ^ D" using assms(2) by (simp flip: power_add)
    finally have "j < 2 ^ D" using k(2) by simp
    moreover have "j mod 2 ^ d = r" using k(2) assms(1) by simp
    ultimately show "j \<in> {j. j < 2 ^ D \<and> j mod 2 ^ d = r}" by simp
  qed
  moreover have "inj_on ?f {..<2 ^ (D - d)}" by (rule inj_onI) simp
  ultimately show ?thesis by (simp add: card_image)
qed

lemma length_filter_upt: "length (filter P [0..<n]) = card {j. j < n \<and> P j}"
proof -
  have "{i. i < length [0..<n] \<and> P ([0..<n] ! i)} = {j. j < n \<and> P j}" by auto
  then show ?thesis by (simp only: length_filter_conv_card)
qed

lemma tbl_inv_refs:
  assumes inv: "tbl_inv hp t" and i: "i < t_size t"
  shows "refs t (t_buckets t ! i) =
           filter (\<lambda>j. j mod 2 ^ b_depth (hp ! (t_buckets t ! i)) = b_id (hp ! (t_buckets t ! i)))
             [0..<t_size t]"
  unfolding refs_def
proof (rule filter_cong [OF refl])
  fix j assume "j \<in> set [0..<t_size t]"
  then have j: "j < t_size t" by simp
  let ?p = "t_buckets t ! i"
  show "(t_buckets t ! j = ?p) = (j mod 2 ^ b_depth (hp ! ?p) = b_id (hp ! ?p))"
  proof
    assume eq: "t_buckets t ! j = ?p"
    from tbl_invD(5) [OF inv j] show "j mod 2 ^ b_depth (hp ! ?p) = b_id (hp ! ?p)"
      unfolding eq by simp
  next
    assume "j mod 2 ^ b_depth (hp ! ?p) = b_id (hp ! ?p)"
    then show "t_buckets t ! j = ?p" by (rule tbl_invD(6) [OF inv i j])
  qed
qed

lemma tbl_inv_id_less:
  assumes "tbl_inv hp t" and "i < t_size t"
  shows "b_id (hp ! (t_buckets t ! i)) < 2 ^ b_depth (hp ! (t_buckets t ! i))"
  unfolding tbl_invD(5) [OF assms] by simp

lemma tbl_inv_sharing:
  assumes inv: "tbl_inv hp t"
  shows "slot_sharing hp t"
  unfolding slot_sharing_def Let_def
proof (intro allI impI conjI ballI)
  fix i assume i: "i < t_size t"
  let ?p = "t_buckets t ! i"
  let ?d = "b_depth (hp ! ?p)" and ?r = "b_id (hp ! ?p)"
  show dle: "?d \<le> t_depth t" by (rule tbl_invD(4) [OF inv i])
  have rlt: "?r < 2 ^ ?d" by (rule tbl_inv_id_less [OF inv i])
  show "length (refs t ?p) = 2 ^ (t_depth t - ?d)"
    unfolding tbl_inv_refs [OF inv i] length_filter_upt tbl_invD(1) [OF inv]
    by (rule card_residue [OF rlt dle])
  fix j assume "j \<in> set (refs t ?p)"
  then have "j mod 2 ^ ?d = ?r" unfolding tbl_inv_refs [OF inv i] by simp
  with rlt show "take_bit ?d j = take_bit ?d ?r" by (simp add: take_bit_eq_mod)
qed

lemma double_table_inv:
  assumes "tbl_inv hp t" and "double_table e t = Inr t'"
  shows "tbl_inv hp t'"
proof -
  from assms(2) have "t' = t\<lparr>t_buckets := t_buckets t @ t_buckets t, t_size := t_size t * 2,
                        t_depth := t_depth t + 1\<rparr>"
    unfolding double_table_eq [OF tbl_invD(2) [OF assms(1)]] by (simp split: if_splits)
  then show ?thesis using tbl_inv_double [OF assms(1)] by simp
qed

text \<open>
  Claim C7. In every state reachable from a fresh table by inserts and lookups, each
  bucket referenced by an inner table has local depth at most the table's global depth
  and is referenced by exactly \<open>2 ^ (global_depth - local_depth)\<close> slots, whose
  indices all have the low-order \<open>local_depth\<close> bits of the bucket's \<open>id\<close>. The
  property comes with the table invariant \<open>xuckoo_inv\<close>, which every split that
  returns and every grow that returns preserve.
\<close>

theorem slot_sharing_invariant:
  "(reachable e s \<longrightarrow> slot_sharing (heap s) (table1 s) \<and> slot_sharing (heap s) (table2 s)) \<and>
   (xuckoo_inv e s \<and> (n = 1 \<or> n = 2) \<and> a < t_size (get_table s n) \<and>
      split_bucket e s a n = Inr s' \<longrightarrow>
        xuckoo_inv e s' \<and> slot_sharing (heap s') (table1 s') \<and> slot_sharing (heap s') (table2 s')) \<and>
   (tbl_inv hp t \<and> double_table e t = Inr t' \<longrightarrow> tbl_inv hp t' \<and> slot_sharing hp t')"
proof (intro conjI impI)
  assume "reachable e s"
  then have inv: "xuckoo_inv e s" by (rule reachable_inv)
  show "slot_sharing (heap s) (table1 s)" by (rule tbl_inv_sharing [OF xuckoo_invD(1) [OF inv]])
  show "slot_sharing (heap s) (table2 s)" by (rule tbl_inv_sharing [OF xuckoo_invD(2) [OF inv]])
next
  assume h: "xuckoo_inv e s \<and> (n = 1 \<or> n = 2) \<and> a < t_size (get_table s n) \<and>
      split_bucket e s a n = Inr s'"
  then have "xuckoo_inv e s" "n = 1 \<or> n = 2" "a < t_size (get_table s n)" by blast+
  from split_bucket_inv [OF this] h show inv: "xuckoo_inv e s'" by auto
  show "slot_sharing (heap s') (table1 s')" by (rule tbl_inv_sharing [OF xuckoo_invD(1) [OF inv]])
  show "slot_sharing (heap s') (table2 s')" by (rule tbl_inv_sharing [OF xuckoo_invD(2) [OF inv]])
next
  assume h: "tbl_inv hp t \<and> double_table e t = Inr t'"
  then show inv: "tbl_inv hp t'" using double_table_inv by blast
  show "slot_sharing hp t'" by (rule tbl_inv_sharing [OF inv])
qed

section \<open>Teardown\<close>

lemma tbl_inv_owner:
  assumes inv: "tbl_inv hp t" and i: "i < t_size t"
  shows "b_id (hp ! (t_buckets t ! i)) < t_size t"
    and "t_buckets t ! b_id (hp ! (t_buckets t ! i)) = t_buckets t ! i"
proof -
  let ?p = "t_buckets t ! i"
  let ?d = "b_depth (hp ! ?p)" and ?r = "b_id (hp ! ?p)"
  have r: "?r = i mod 2 ^ ?d" by (rule tbl_invD(5) [OF inv i])
  have "i mod 2 ^ ?d \<le> i" by simp
  then have "?r \<le> i" by (simp only: r)
  then show lt: "?r < t_size t" using i by (rule le_less_trans)
  have "?r mod 2 ^ ?d = ?r" unfolding r by simp
  then show "t_buckets t ! ?r = ?p" by (rule tbl_invD(6) [OF inv i lt])
qed

lemma tbl_inv_lower_slot:
  assumes inv: "tbl_inv hp t" and i: "i < t_size t" and j: "j < i"
    and own: "b_id (hp ! (t_buckets t ! i)) = i"
  shows "t_buckets t ! j \<noteq> t_buckets t ! i"
proof
  assume eq: "t_buckets t ! j = t_buckets t ! i"
  from j i have jt: "j < t_size t" by simp
  have "b_id (hp ! (t_buckets t ! j)) = j mod 2 ^ b_depth (hp ! (t_buckets t ! j))"
    by (rule tbl_invD(5) [OF inv jt])
  then have "i = j mod 2 ^ b_depth (hp ! (t_buckets t ! i))" unfolding eq own .
  moreover have "j mod 2 ^ b_depth (hp ! (t_buckets t ! i)) \<le> j" by simp
  ultimately show False using j by simp
qed

lemma free_slots_owners:
  assumes inv: "tbl_inv hp t"
  shows "n \<le> t_size t \<Longrightarrow> \<forall>j<n. t_buckets t ! j \<notin> set freed \<Longrightarrow>
         free_slots hp (t_buckets t) n freed =
           Inr (map (\<lambda>i. t_buckets t ! i)
                  (filter (\<lambda>i. b_id (hp ! (t_buckets t ! i)) = i) [0..<n]) @ freed)"
proof (induction n arbitrary: freed)
  case 0
  show ?case by simp
next
  case (Suc n)
  let ?bs = "t_buckets t"
  from Suc.prems(1) have n: "n < t_size t" by simp
  have len: "n < length ?bs" using n tbl_invD(2) [OF inv] by simp
  have ptr: "?bs ! n < length hp" by (rule tbl_invD(3) [OF inv n])
  have nf: "?bs ! n \<notin> set freed" using Suc.prems(2) by simp
  show ?case
  proof (cases "b_id (hp ! (?bs ! n)) = n")
    case True
    have "\<forall>j<n. ?bs ! j \<notin> set (?bs ! n # freed)"
    proof (intro allI impI)
      fix j assume j: "j < n"
      have "?bs ! j \<noteq> ?bs ! n" by (rule tbl_inv_lower_slot [OF inv n j True])
      moreover have "?bs ! j \<notin> set freed" using Suc.prems(2) j by simp
      ultimately show "?bs ! j \<notin> set (?bs ! n # freed)" by simp
    qed
    from Suc.IH [OF _ this] n
    have "free_slots hp ?bs n (?bs ! n # freed) =
            Inr (map (\<lambda>i. ?bs ! i) (filter (\<lambda>i. b_id (hp ! (?bs ! i)) = i) [0..<n]) @ ?bs ! n # freed)"
      by simp
    with True len ptr nf show ?thesis by simp
  next
    case False
    have "\<forall>j<n. ?bs ! j \<notin> set freed" using Suc.prems(2) by simp
    from Suc.IH [OF _ this] n
    have "free_slots hp ?bs n freed =
            Inr (map (\<lambda>i. ?bs ! i) (filter (\<lambda>i. b_id (hp ! (?bs ! i)) = i) [0..<n]) @ freed)"
      by simp
    with False len ptr nf show ?thesis by simp
  qed
qed

lemma owners_distinct_set:
  assumes inv: "tbl_inv hp t"
  defines "os \<equiv> map (\<lambda>i. t_buckets t ! i)
                  (filter (\<lambda>i. b_id (hp ! (t_buckets t ! i)) = i) [0..<t_size t])"
  shows "distinct os" and "set os = set (t_buckets t)"
proof -
  let ?bs = "t_buckets t"
  let ?own = "filter (\<lambda>i. b_id (hp ! (?bs ! i)) = i) [0..<t_size t]"
  have sos: "set os = (\<lambda>i. ?bs ! i) ` set ?own" unfolding os_def by (rule set_map)
  have own_iff: "i \<in> set ?own \<longleftrightarrow> i < t_size t \<and> b_id (hp ! (?bs ! i)) = i" for i
    by simp
  have "inj_on (\<lambda>i. ?bs ! i) (set ?own)"
  proof (rule inj_onI)
    fix i j assume "i \<in> set ?own" "j \<in> set ?own" and eq: "?bs ! i = ?bs ! j"
    then have "b_id (hp ! (?bs ! i)) = i" "b_id (hp ! (?bs ! j)) = j"
      unfolding own_iff by blast+
    then show "i = j" unfolding eq by (simp only:)
  qed
  moreover have "distinct ?own" by (rule distinct_filter) simp
  ultimately show "distinct os" unfolding os_def distinct_map by blast
  show "set os = set ?bs"
  proof (intro set_eqI iffI)
    fix p assume "p \<in> set os"
    then obtain i where "i \<in> set ?own" and p: "p = ?bs ! i" unfolding sos by (rule imageE)
    then have "i < length ?bs" unfolding own_iff tbl_invD(2) [OF inv] by blast
    then show "p \<in> set ?bs" unfolding p by (rule nth_mem)
  next
    fix p assume "p \<in> set ?bs"
    then obtain i where "i < length ?bs" and p: "?bs ! i = p"
      unfolding in_set_conv_nth by blast
    then have i: "i < t_size t" unfolding tbl_invD(2) [OF inv] by blast
    let ?r = "b_id (hp ! (?bs ! i))"
    note o = tbl_inv_owner [OF inv i]
    have "b_id (hp ! (?bs ! ?r)) = ?r" unfolding o(2) ..
    with o(1) have "?r \<in> set ?own" unfolding own_iff by blast
    then have "?bs ! ?r \<in> set os" unfolding sos by (rule imageI)
    then have "?bs ! i \<in> set os" by (simp only: o(2))
    then show "p \<in> set os" by (simp only: p)
  qed
qed

lemma owner_slots_one:
  assumes inv: "tbl_inv hp t" and i: "i < t_size t"
  shows "length (owner_slots hp t (t_buckets t ! i)) = 1"
proof -
  let ?p = "t_buckets t ! i"
  let ?r = "b_id (hp ! ?p)"
  note o = tbl_inv_owner [OF inv i]
  have "{j. j < t_size t \<and> t_buckets t ! j = ?p \<and> ?r = j} = {?r}"
    using o by auto
  then have "card {j. j < t_size t \<and> t_buckets t ! j = ?p \<and> ?r = j} = 1" by simp
  then show ?thesis
    unfolding owner_slots_def refs_def filter_filter length_filter_upt
    by (simp add: conj_commute)
qed

text \<open>
  Claim C10. In every reachable state, each bucket an inner table references has exactly
  one slot that points to it and whose index is the bucket's \<open>id\<close>; the teardown scan
  of the two tables, from the highest slot to the lowest, reads no freed bucket and frees
  no bucket twice, and the buckets it frees are exactly the buckets the tables reference,
  which are all the buckets ever allocated.
\<close>

theorem teardown_frees_once:
  assumes "reachable e s"
  shows "(\<forall>i<t_size (table1 s).
            length (owner_slots (heap s) (table1 s) (t_buckets (table1 s) ! i)) = 1) \<and>
         (\<forall>i<t_size (table2 s).
            length (owner_slots (heap s) (table2 s) (t_buckets (table2 s) ! i)) = 1) \<and>
         (\<exists>freed. free_xuckoo_hash_table s = Inr freed \<and> distinct freed \<and>
            set freed = set (t_buckets (table1 s)) \<union> set (t_buckets (table2 s)) \<and>
            set freed = {..<length (heap s)})"
proof (intro conjI allI impI)
  from assms have inv: "xuckoo_inv e s" by (rule reachable_inv)
  note D = xuckoo_invD [OF inv]
  let ?hp = "heap s" and ?b1 = "t_buckets (table1 s)" and ?b2 = "t_buckets (table2 s)"
  show "length (owner_slots ?hp (table1 s) (?b1 ! i)) = 1" if "i < t_size (table1 s)" for i
    by (rule owner_slots_one [OF D(1) that])
  show "length (owner_slots ?hp (table2 s) (?b2 ! i)) = 1" if "i < t_size (table2 s)" for i
    by (rule owner_slots_one [OF D(2) that])
  define os1 where "os1 = map (\<lambda>i. ?b1 ! i)
                  (filter (\<lambda>i. b_id (?hp ! (?b1 ! i)) = i) [0..<t_size (table1 s)])"
  define os2 where "os2 = map (\<lambda>i. ?b2 ! i)
                  (filter (\<lambda>i. b_id (?hp ! (?b2 ! i)) = i) [0..<t_size (table2 s)])"
  note o1 = owners_distinct_set [OF D(1), folded os1_def]
  note o2 = owners_distinct_set [OF D(2), folded os2_def]
  have f1: "free_slots ?hp ?b1 (t_size (table1 s)) [] = Inr os1"
    using free_slots_owners [OF D(1), of "t_size (table1 s)" "[]"] by (simp add: os1_def)
  have "\<forall>j<t_size (table2 s). ?b2 ! j \<notin> set os1"
  proof (intro allI impI)
    fix j assume "j < t_size (table2 s)"
    then have "?b2 ! j \<in> set ?b2" using tbl_invD(2) [OF D(2)] by simp
    with D(3) show "?b2 ! j \<notin> set os1" unfolding o1(2) by blast
  qed
  from free_slots_owners [OF D(2) le_refl this]
  have f2: "free_slots ?hp ?b2 (t_size (table2 s)) os1 = Inr (os2 @ os1)"
    by (simp add: os2_def)
  have "free_xuckoo_hash_table s = Inr (os2 @ os1)"
    unfolding free_xuckoo_hash_table_def f1 by (simp add: f2)
  moreover have "distinct (os2 @ os1)" using o1 o2 D(3) by auto
  moreover have "set (os2 @ os1) = set ?b1 \<union> set ?b2" using o1(2) o2(2) by auto
  moreover have "set (os2 @ os1) = {..<length ?hp}" using o1(2) o2(2) D(4) by auto
  ultimately show "\<exists>freed. free_xuckoo_hash_table s = Inr freed \<and> distinct freed \<and>
            set freed = set ?b1 \<union> set ?b2 \<and> set freed = {..<length ?hp}"
    by blast
qed

section \<open>Reachable states\<close>

lemma reachable_inserts:
  "reachable e s \<Longrightarrow> inserts e s ks = Some (Inr (s', bs)) \<Longrightarrow> reachable e s'"
proof (induction ks arbitrary: s bs)
  case Nil
  then show ?case by simp
next
  case (Cons k ks)
  from Cons.prems(2) obtain s1 b where i: "xuckoo_hash_table_insert e s k = Some (Inr (s1, b))"
    by (auto split: option.splits sum.splits)
  with Cons.prems(1) have r1: "reachable e s1" by (rule reachable.insert)
  from Cons.prems(2) i obtain bs1 where "inserts e s1 ks = Some (Inr (s', bs1))"
    by (auto split: option.splits sum.splits)
  with r1 show ?case by (rule Cons.IH)
qed

lemma inserts_three_keys:
  "inserts shift_env (new_xuckoo_hash_table shift_env) [2, 4, 6] =
     Some (Inr (three_keys_state, [True, True, True]))"
  by code_simp

lemma reachable_three_keys: "reachable shift_env three_keys_state"
  by (rule reachable_inserts [OF reachable.fresh inserts_three_keys])

text \<open>
  The slot-sharing theorem on the state after three inserts, on the split of table 1's
  only bucket in \<open>chain_state\<close>, and on the doubling of that table.
\<close>

theorem slot_sharing_invariant_witness:
  "slot_sharing (heap three_keys_state) (table1 three_keys_state) \<and>
   slot_sharing (heap three_keys_state) (table2 three_keys_state) \<and>
   (\<exists>s'. split_bucket shift_env chain_state 0 1 = Inr s' \<and> xuckoo_inv shift_env s' \<and>
         slot_sharing (heap s') (table1 s') \<and> slot_sharing (heap s') (table2 s')) \<and>
   (\<exists>t'. double_table shift_env (table1 chain_state) = Inr t' \<and>
         slot_sharing (heap chain_state) t')"
proof -
  have n: "(1::nat) = 1 \<or> (1::nat) = 2" by simp
  have a: "0 < t_size (get_table chain_state 1)" by (simp add: get_table_def chain_state_def)
  have "split_bucket shift_env chain_state 0 1 \<noteq> Inl TableTooLarge" by code_simp
  with split_bucket_inv [OF xuckoo_inv_chain_state n a]
  obtain s' where s': "split_bucket shift_env chain_state 0 1 = Inr s'" by blast
  have t1: "tbl_inv (heap chain_state) (table1 chain_state)"
    by (rule xuckoo_invD(1) [OF xuckoo_inv_chain_state])
  have "t_size (table1 chain_state) * 2 < MAX_TABLE_SIZE shift_env"
    by (simp add: chain_state_def shift_env_def)
  then obtain t' where t': "double_table shift_env (table1 chain_state) = Inr t'"
    unfolding double_table_eq [OF tbl_invD(2) [OF t1]] by simp
  note th = slot_sharing_invariant [where e = shift_env and s = three_keys_state]
  note th' = slot_sharing_invariant [where e = shift_env and s = chain_state and n = 1
      and a = 0 and s' = s' and hp = "heap chain_state" and t = "table1 chain_state" and t' = t']
  from th reachable_three_keys
  have 1: "slot_sharing (heap three_keys_state) (table1 three_keys_state) \<and>
           slot_sharing (heap three_keys_state) (table2 three_keys_state)" by blast
  from th' xuckoo_inv_chain_state n a s'
  have 2: "xuckoo_inv shift_env s' \<and> slot_sharing (heap s') (table1 s') \<and>
           slot_sharing (heap s') (table2 s')" by blast
  from th' t1 t' have 3: "slot_sharing (heap chain_state) t'" by blast
  from 1 2 3 s' t' show ?thesis by blast
qed

text \<open>
  The teardown theorem on the state after three inserts: slot 3 of table 2 shares its
  bucket with slot 1, which owns it; the five buckets are freed once each.
\<close>

theorem teardown_frees_once_witness:
  "length (owner_slots (heap three_keys_state) (table2 three_keys_state)
             (t_buckets (table2 three_keys_state) ! 3)) = 1 \<and>
   (\<exists>freed. free_xuckoo_hash_table three_keys_state = Inr freed \<and> distinct freed \<and>
      set freed = {..<5})"
proof -
  note th = teardown_frees_once [OF reachable_three_keys]
  have "(3::nat) < t_size (table2 three_keys_state)" by (simp add: three_keys_state_def)
  with th have 1: "length (owner_slots (heap three_keys_state) (table2 three_keys_state)
             (t_buckets (table2 three_keys_state) ! 3)) = 1" by blast
  have "length (heap three_keys_state) = 5" by (simp add: three_keys_state_def)
  with th have 2: "\<exists>freed. free_xuckoo_hash_table three_keys_state = Inr freed \<and> distinct freed \<and>
      set freed = {..<5}" by metis
  from 1 2 show ?thesis ..
qed

section \<open>The result of insert\<close>

text \<open>
  What claim C2 says about the result holds in every state that satisfies the invariant:
  an insert of a key that \<open>lookup\<close> finds returns false and changes nothing but the
  accumulated time; an insert of a key that \<open>lookup\<close> does not find returns true if it
  returns normally.
\<close>

lemma lookup_spec_ticks: "lookup_spec e (s\<lparr>ticks := k\<rparr>) key = lookup_spec e s key"
  by (simp add: lookup_spec_def)

lemma insert_present:
  assumes inv: "xuckoo_inv e s" and present: "lookup_spec e s key"
  shows "\<exists>s'. xuckoo_hash_table_insert e s key = Some (Inr (s', False)) \<and> same_but_time s s'"
proof -
  let ?s0 = "s\<lparr>ticks := ticks s + 1\<rparr>"
  have inv0: "xuckoo_inv e ?s0" by (rule xuckoo_inv_ticks [OF inv])
  from lookup_eq_inv [OF inv0, of key] present
  obtain s1 where l: "xuckoo_hash_table_lookup e ?s0 key = Inr (s1, True)"
    and same: "same_but_time s s1"
    by (simp add: lookup_spec_ticks same_but_time_def)
  from l have "run e s (Insert key) = Some (Inr (s1, False))" by (rule run_Insert_present)
  with same show ?thesis unfolding xuckoo_hash_table_insert_def by blast
qed

lemma insert_absent:
  assumes inv: "xuckoo_inv e s" and absent: "\<not> lookup_spec e s key"
    and ret: "xuckoo_hash_table_insert e s key = Some (Inr (s', b))"
  shows "b = True"
proof -
  let ?s0 = "s\<lparr>ticks := ticks s + 1\<rparr>"
  have inv0: "xuckoo_inv e ?s0" by (rule xuckoo_inv_ticks [OF inv])
  from lookup_eq_inv [OF inv0, of key] absent
  obtain s1 where l: "xuckoo_hash_table_lookup e ?s0 key = Inr (s1, False)"
    by (simp add: lookup_spec_ticks)
  from ret obtain r where fin: "finish_insert e (clock e (ticks s)) r = Some (Inr (s', b))"
    unfolding xuckoo_hash_table_insert_def run_Insert_absent [OF l] bind_eq_Some_conv
    by (elim exE conjE)
  show ?thesis
  proof (cases r)
    case (Inl err)
    with fin show ?thesis by (simp add: finish_insert_def)
  next
    case (Inr x)
    obtain s2 b2 where "x = (s2, b2)" by (cases x)
    with Inr fin show ?thesis by (simp add: finish_insert_def)
  qed
qed

end
